theory Spec2Isabelle
  imports Complex_Main "HOL-Library.AList"
begin

section \<open>Data model of snap-server.mjs\<close>

text \<open>
  A WebSocket object is known to the server only by its identity, so a connection is a
  number: the n-th socket the transport has handed to the \<open>connection\<close> handler. A game
  id is the letter g followed by the value of the counter \<open>nextGameId\<close>; the model keeps that
  number (such a string is never empty, hence always truthy). The two role names are the
  keys \<open>p1\<close> and \<open>p2\<close> of \<open>game.roles\<close> and \<open>game.scores\<close>.
\<close>

type_synonym conn = nat
type_synonym gameid = nat

datatype role = P1 | P2

text \<open>
  A JavaScript number as \<open>JSON.parse\<close> yields one: a finite double, taken as the real
  it stands for, or an infinity, which is what a literal beyond the range of doubles (such
  as \<open>1e400\<close>) decodes to. \<open>JSON.parse\<close> never yields NaN.
\<close>

datatype jsnum = Fin real | PlusInfinity | MinusInfinity

text \<open>A decoded message: what \<open>JSON.parse\<close> returns. The keys of an object are distinct.\<close>

datatype json =
    JNull
  | JBool bool
  | JNum jsnum
  | JStr string
  | JArr "json list"
  | JObj "(string \<times> json) list"

text \<open>The value stored in \<open>clientMeta\<close> for a socket (line 11).\<close>

record meta =
  role :: "role option"
  isAlive :: bool
  gameId :: "gameid option"

text \<open>
  A game object (lines 14-21): \<open>id\<close>, the two slots \<open>roles.p1\<close>, \<open>roles.p2\<close> (a socket
  or null) and the two counters \<open>scores.p1\<close>, \<open>scores.p2\<close>, which start at 0 and are
  only ever incremented by 1 or set to 0: integers.
\<close>

record game =
  game_id :: gameid
  roles_p1 :: "conn option"
  roles_p2 :: "conn option"
  scores_p1 :: int
  scores_p2 :: int

text \<open>
  The server's state: the two module-level maps and the counter, and the part of the
  transport the code reads: \<open>wss.clients\<close> (the sockets between their \<open>connection\<close> and
  their \<open>close\<close> event, in insertion order) and the sockets whose \<open>readyState\<close> is OPEN.
  \<open>games\<close> is a JavaScript Map, which iterates in insertion order: an association list
  with \<open>AList.update\<close> (\<open>Map.set\<close>: replace in place, or append a new key) and
  \<open>AList.delete\<close> (\<open>Map.delete\<close>). \<open>clientMeta\<close> is never iterated, so it is a map.
  \<open>nextConn\<close> numbers the socket objects as the transport creates them.
\<close>

record state =
  clientMeta :: "conn \<rightharpoonup> meta"
  games :: "(gameid \<times> game) list"
  nextGameId :: nat
  clients :: "conn list"
  opened :: "conn set"
  nextConn :: nat

text \<open>
  The payloads handed to \<open>safeSend\<close>, and what their JSON text says. A field that is
  \<open>undefined\<close>, which the text leaves out, is \<open>None\<close>.
\<close>

record remote_state =
  rs_from :: role
  rs_snapX :: json
  rs_snapY :: json
  rs_crouch :: json
  rs_aimX :: json
  rs_aimY :: json
  rs_exposure :: json
  rs_targetX :: json
  rs_targetY :: json
  rs_targetZ :: json
  rs_t :: json

record shot =
  sh_from :: role
  sh_start :: json
  sh_velocity :: json
  sh_radius :: "json option"
  sh_color :: "json option"
  sh_t :: json

datatype outmsg =
    ScoreUpdate int int int
  | RemoteState remote_state
  | Shot shot

text \<open>
  What a handler does to the outside: a call of \<open>ws.send\<close>, with the message that the
  JSON text sent says, of \<open>ws.ping\<close> or of \<open>ws.terminate\<close>. Console output is not
  part of the model.
\<close>

datatype effect =
    Send conn outmsg
  | Ping conn
  | Terminate conn

section \<open>JavaScript values\<close>

text \<open>Truthiness of a decoded value (\<open>!data\<close>, \<open>x || y\<close>).\<close>

fun truthy :: "json \<Rightarrow> bool" where
  "truthy JNull = False"
| "truthy (JBool b) = b"
| "truthy (JNum x) = (x \<noteq> Fin 0)"
| "truthy (JStr s) = (s \<noteq> [])"
| "truthy (JArr xs) = True"
| "truthy (JObj kvs) = True"

text \<open>
  Property access \<open>data.k\<close> on a decoded value: only an object has the properties the
  handlers read; everywhere else the access yields \<open>undefined\<close>, which is \<open>None\<close>.
\<close>

fun field :: "json \<Rightarrow> string \<Rightarrow> json option" where
  "field (JObj kvs) k = map_of kvs k"
| "field v k = None"

text \<open>\<open>typeof x === "number" ? x : 0\<close> and \<open>typeof x === "number" ? x : null\<close>.\<close>

fun numberOr :: "json \<Rightarrow> json option \<Rightarrow> json" where
  "numberOr d (Some (JNum x)) = JNum x"
| "numberOr d v = d"

text \<open>\<open>typeof x === "number" ? x : undefined\<close>.\<close>

fun numberOrUndefined :: "json option \<Rightarrow> json option" where
  "numberOrUndefined (Some (JNum x)) = Some (JNum x)"
| "numberOrUndefined v = None"

text \<open>\<open>x || null\<close> and \<open>x || undefined\<close>.\<close>

fun orNull :: "json option \<Rightarrow> json" where
  "orNull None = JNull"
| "orNull (Some v) = (if truthy v then v else JNull)"

fun orUndefined :: "json option \<Rightarrow> json option" where
  "orUndefined None = None"
| "orUndefined (Some v) = (if truthy v then Some v else None)"

section \<open>Helpers\<close>

definition MAX_PLAYERS_PER_GAME :: nat where
  "MAX_PLAYERS_PER_GAME = 2"

definition pointsToWin :: int where
  "pointsToWin = 7"

text \<open>\<open>game.roles[r]\<close> and \<open>game.roles[r] = v\<close>; the other role name.\<close>

fun roles_at :: "game \<Rightarrow> role \<Rightarrow> conn option" where
  "roles_at g P1 = roles_p1 g"
| "roles_at g P2 = roles_p2 g"

fun roles_set :: "game \<Rightarrow> role \<Rightarrow> conn option \<Rightarrow> game" where
  "roles_set g P1 v = g\<lparr>roles_p1 := v\<rparr>"
| "roles_set g P2 v = g\<lparr>roles_p2 := v\<rparr>"

fun other :: "role \<Rightarrow> role" where
  "other P1 = P2"
| "other P2 = P1"

text \<open>
  \<open>JSON.stringify\<close> (line 46), as the value its text denotes: a finite number, a string,
  a boolean and null are written as they are, an infinity is written \<open>null\<close>, and arrays
  and objects are written member by member.
\<close>

fun stringify :: "json \<Rightarrow> json" where
  "stringify JNull = JNull"
| "stringify (JBool b) = JBool b"
| "stringify (JNum (Fin x)) = JNum (Fin x)"
| "stringify (JNum PlusInfinity) = JNull"
| "stringify (JNum MinusInfinity) = JNull"
| "stringify (JStr str) = JStr str"
| "stringify (JArr xs) = JArr (map stringify xs)"
| "stringify (JObj kvs) = JObj (map (\<lambda>kv. (fst kv, stringify (snd kv))) kvs)"

text \<open>The same for a payload: field by field; an \<open>undefined\<close> field stays left out.\<close>

fun stringify_payload :: "outmsg \<Rightarrow> outmsg" where
  "stringify_payload (ScoreUpdate a b w) = ScoreUpdate a b w"
| "stringify_payload (RemoteState p) =
     RemoteState
       \<lparr>rs_from = rs_from p,
        rs_snapX = stringify (rs_snapX p),
        rs_snapY = stringify (rs_snapY p),
        rs_crouch = stringify (rs_crouch p),
        rs_aimX = stringify (rs_aimX p),
        rs_aimY = stringify (rs_aimY p),
        rs_exposure = stringify (rs_exposure p),
        rs_targetX = stringify (rs_targetX p),
        rs_targetY = stringify (rs_targetY p),
        rs_targetZ = stringify (rs_targetZ p),
        rs_t = stringify (rs_t p)\<rparr>"
| "stringify_payload (Shot p) =
     Shot
       \<lparr>sh_from = sh_from p,
        sh_start = stringify (sh_start p),
        sh_velocity = stringify (sh_velocity p),
        sh_radius = map_option stringify (sh_radius p),
        sh_color = map_option stringify (sh_color p),
        sh_t = stringify (sh_t p)\<rparr>"

text \<open>
  \<open>safeSend\<close> (lines 41-57). Its callers always pass a socket, so the \<open>!ws\<close> test is not
  modelled. The payloads are built from decoded JSON and from numbers, on which
  \<open>JSON.stringify\<close> returns a text; a throwing \<open>ws.send\<close> is caught and changes nothing.
\<close>

definition safeSend :: "state \<Rightarrow> conn \<Rightarrow> outmsg \<Rightarrow> effect list" where
  "safeSend s ws payloadObj =
     (if ws \<notin> opened s then []
      else (let json = stringify_payload payloadObj in [Send ws json]))"

definition getGameForSocket :: "state \<Rightarrow> conn \<Rightarrow> game option" where
  "getGameForSocket s ws =
     (case clientMeta s ws of
        None \<Rightarrow> None
      | Some m \<Rightarrow>
          (case gameId m of
             None \<Rightarrow> None
           | Some g \<Rightarrow> map_of (games s) g))"

definition sendScoreUpdate :: "state \<Rightarrow> conn \<Rightarrow> effect list" where
  "sendScoreUpdate s ws =
     (case getGameForSocket s ws of
        None \<Rightarrow> []
      | Some g \<Rightarrow> safeSend s ws (ScoreUpdate (scores_p1 g) (scores_p2 g) pointsToWin))"

fun broadcast_targets :: "state \<Rightarrow> conn option list \<Rightarrow> effect list" where
  "broadcast_targets s [] = []"
| "broadcast_targets s (None # targets) = broadcast_targets s targets"
| "broadcast_targets s (Some ws # targets) =
     (if ws \<in> opened s then sendScoreUpdate s ws else []) @ broadcast_targets s targets"

definition broadcastScoreUpdateForGame :: "state \<Rightarrow> game \<Rightarrow> effect list" where
  "broadcastScoreUpdateForGame s g = broadcast_targets s [roles_p1 g, roles_p2 g]"

text \<open>
  \<open>resetMatchForGame\<close> (lines 101-108) writes into the game object it is given; the
  object is the entry of \<open>games\<close> under the key \<open>k\<close> it was read from.
\<close>

definition resetMatchForGame :: "state \<Rightarrow> gameid \<Rightarrow> game \<Rightarrow> state \<times> effect list" where
  "resetMatchForGame s k g =
     (let g' = g\<lparr>scores_p1 := 0, scores_p2 := 0\<rparr>;
          s' = s\<lparr>games := AList.update k g' (games s)\<rparr>
      in (s', broadcastScoreUpdateForGame s' g'))"

section \<open>The Matchmaker\<close>

text \<open>
  The search loop of \<open>assignClientToGame\<close> (lines 132-143), over \<open>games.values()\<close> in
  insertion order. It yields the game object found, with the key it is stored under.
\<close>

fun findGame :: "role \<Rightarrow> (gameid \<times> game) list \<Rightarrow> (gameid \<times> game) option" where
  "findGame r [] = None"
| "findGame r ((k, g) # rest) =
     (let currentP1 = (roles_p1 g \<noteq> None);
          currentP2 = (roles_p2 g \<noteq> None);
          currentPlayers = (if currentP1 then 1 else 0) + (if currentP2 then 1 else (0::nat))
      in if currentPlayers \<ge> MAX_PLAYERS_PER_GAME then findGame r rest
         else if roles_at g r = None then Some (k, g)
         else findGame r rest)"

text \<open>Lines 145-155: the game to join, created and registered when the search found none.\<close>

definition targetGame :: "state \<Rightarrow> role \<Rightarrow> state \<times> gameid \<times> game" where
  "targetGame s r =
     (case findGame r (games s) of
        Some (k, g) \<Rightarrow> (s, k, g)
      | None \<Rightarrow>
          (let gid = nextGameId s;
               g = \<lparr>game_id = gid, roles_p1 = None, roles_p2 = None,
                    scores_p1 = 0, scores_p2 = 0\<rparr>
           in (s\<lparr>nextGameId := nextGameId s + 1,
                 games := AList.update gid g (games s)\<rparr>, gid, g)))"

text \<open>Lines 157-172: claim the role in that game, record it in the meta, sync the scores.\<close>

definition claimRole :: "state \<Rightarrow> conn \<Rightarrow> meta \<Rightarrow> role \<Rightarrow> state \<times> effect list" where
  "claimRole s ws m r =
     (case targetGame s r of
        (s1, k, g) \<Rightarrow>
          (let g' = roles_set g r (Some ws);
               m' = m\<lparr>role := Some r, gameId := Some (game_id g')\<rparr>;
               s2 = s1\<lparr>games := AList.update k g' (games s1),
                       clientMeta := (clientMeta s1)(ws \<mapsto> m')\<rparr>
           in (s2, sendScoreUpdate s2 ws)))"

definition assignClientToGame :: "state \<Rightarrow> conn \<Rightarrow> role \<Rightarrow> state \<times> effect list" where
  "assignClientToGame s ws desiredRole =
     (let r = (if desiredRole = P2 then P2 else P1) in
      case clientMeta s ws of
        None \<Rightarrow>
          (let m = \<lparr>role = None, isAlive = True, gameId = None\<rparr>
           in claimRole (s\<lparr>clientMeta := (clientMeta s)(ws \<mapsto> m)\<rparr>) ws m r)
      | Some m \<Rightarrow>
          if gameId m \<noteq> None \<and> role m \<noteq> None then (s, sendScoreUpdate s ws)
          else claimRole s ws m r)"

section \<open>Message handlers\<close>

definition handleHello :: "state \<Rightarrow> conn \<Rightarrow> json \<Rightarrow> state \<times> effect list" where
  "handleHello s ws data =
     (let desiredRole = (if field data ''role'' = Some (JStr ''p2'') then P2 else P1)
      in assignClientToGame s ws desiredRole)"

text \<open>
  The common head of \<open>handleState\<close>, \<open>handleShot\<close> (lines 183-193, 212-222): the
  sender's role and the open socket in the other slot of its game, if all of that exists.
\<close>

definition relayDest :: "state \<Rightarrow> conn \<Rightarrow> (role \<times> conn) option" where
  "relayDest s ws =
     (case clientMeta s ws of
        None \<Rightarrow> None
      | Some m \<Rightarrow>
          (case (role m, gameId m) of
             (Some fromRole, Some k) \<Rightarrow>
               (case map_of (games s) k of
                  None \<Rightarrow> None
                | Some g \<Rightarrow>
                    (let toRole = (if fromRole = P1 then P2 else P1) in
                     case roles_at g toRole of
                       None \<Rightarrow> None
                     | Some dest \<Rightarrow> if dest \<notin> opened s then None else Some (fromRole, dest)))
           | _ \<Rightarrow> None))"

definition handleState :: "state \<Rightarrow> conn \<Rightarrow> json \<Rightarrow> effect list" where
  "handleState s ws data =
     (case relayDest s ws of
        None \<Rightarrow> []
      | Some (fromRole, dest) \<Rightarrow>
          safeSend s dest (RemoteState
            \<lparr>rs_from = fromRole,
             rs_snapX = numberOr (JNum (Fin 0)) (field data ''snapX''),
             rs_snapY = numberOr (JNum (Fin 0)) (field data ''snapY''),
             rs_crouch = numberOr (JNum (Fin 0)) (field data ''crouch''),
             rs_aimX = numberOr (JNum (Fin 0)) (field data ''aimX''),
             rs_aimY = numberOr (JNum (Fin 0)) (field data ''aimY''),
             rs_exposure = numberOr (JNum (Fin 0)) (field data ''exposure''),
             rs_targetX = numberOr JNull (field data ''targetX''),
             rs_targetY = numberOr JNull (field data ''targetY''),
             rs_targetZ = numberOr JNull (field data ''targetZ''),
             rs_t = numberOr (JNum (Fin 0)) (field data ''t'')\<rparr>))"

text \<open>\<open>now\<close> is the value of \<open>Date.now()\<close> when the handler runs, in milliseconds.\<close>

definition handleShot :: "state \<Rightarrow> conn \<Rightarrow> json \<Rightarrow> int \<Rightarrow> effect list" where
  "handleShot s ws data now =
     (case relayDest s ws of
        None \<Rightarrow> []
      | Some (fromRole, dest) \<Rightarrow>
          safeSend s dest (Shot
            \<lparr>sh_from = fromRole,
             sh_start = orNull (field data ''start''),
             sh_velocity = orNull (field data ''velocity''),
             sh_radius = numberOrUndefined (field data ''radius''),
             sh_color = orUndefined (field data ''color''),
             sh_t = numberOr (JNum (Fin (real_of_int now / 1000))) (field data ''t'')\<rparr>))"

text \<open>Line 244: \<open>data && typeof data.kind === "string" ? data.kind : "enemy"\<close>.\<close>

fun hit_kind :: "json \<Rightarrow> string" where
  "hit_kind data =
     (case field data ''kind'' of
        Some (JStr str) \<Rightarrow> str
      | _ \<Rightarrow> ''enemy'')"

definition handleHit :: "state \<Rightarrow> conn \<Rightarrow> json \<Rightarrow> state \<times> effect list" where
  "handleHit s ws data =
     (case clientMeta s ws of
        None \<Rightarrow> (s, [])
      | Some m \<Rightarrow>
          (case (role m, gameId m) of
             (Some fromRole, Some k) \<Rightarrow>
               (case map_of (games s) k of
                  None \<Rightarrow> (s, [])
                | Some g \<Rightarrow>
                    (let kind = hit_kind data
                     in if kind = ''enemy'' then
                          (let g' = (if fromRole = P1 then g\<lparr>scores_p1 := scores_p1 g + 1\<rparr>
                                     else g\<lparr>scores_p2 := scores_p2 g + 1\<rparr>);
                               s' = s\<lparr>games := AList.update k g' (games s)\<rparr>
                           in (s', broadcastScoreUpdateForGame s' g'))
                        else (s, [])))
           | _ \<Rightarrow> (s, [])))"

definition handleResetMatch :: "state \<Rightarrow> conn \<Rightarrow> state \<times> effect list" where
  "handleResetMatch s ws =
     (case clientMeta s ws of
        None \<Rightarrow> (s, [])
      | Some m \<Rightarrow>
          (case gameId m of
             None \<Rightarrow> (s, [])
           | Some k \<Rightarrow>
               (case map_of (games s) k of
                  None \<Rightarrow> (s, [])
                | Some g \<Rightarrow> resetMatchForGame s k g)))"

section \<open>Server events\<close>

text \<open>
  The \<open>connection\<close> handler (lines 274-281) for the socket object the transport has just
  created: the socket is OPEN and a member of \<open>wss.clients\<close>.
\<close>

definition onConnection :: "state \<Rightarrow> state" where
  "onConnection s =
     (let ws = nextConn s in
      s\<lparr>clientMeta := (clientMeta s)(ws \<mapsto> \<lparr>role = None, isAlive = True, gameId = None\<rparr>),
        clients := clients s @ [ws],
        opened := insert ws (opened s),
        nextConn := nextConn s + 1\<rparr>)"

definition onPong :: "state \<Rightarrow> conn \<Rightarrow> state" where
  "onPong s ws =
     (case clientMeta s ws of
        None \<Rightarrow> s
      | Some m \<Rightarrow> s\<lparr>clientMeta := (clientMeta s)(ws \<mapsto> m\<lparr>isAlive := True\<rparr>)\<rparr>)"

text \<open>
  The \<open>message\<close> handler (lines 290-321). \<open>raw\<close> is \<open>None\<close> when \<open>JSON.parse\<close> throws,
  and the decoded value otherwise.
\<close>

definition onMessage :: "state \<Rightarrow> conn \<Rightarrow> json option \<Rightarrow> int \<Rightarrow> state \<times> effect list" where
  "onMessage s ws raw now =
     (case raw of
        None \<Rightarrow> (s, [])
      | Some data \<Rightarrow>
          if \<not> truthy data then (s, [])
          else (case field data ''type'' of
                  Some (JStr ty) \<Rightarrow>
                    if ty = ''hello'' then handleHello s ws data
                    else if ty = ''state'' then (s, handleState s ws data)
                    else if ty = ''shot'' then (s, handleShot s ws data now)
                    else if ty = ''hit'' then handleHit s ws data
                    else if ty = ''reset-match'' then handleResetMatch s ws
                    else (s, [])
                | _ \<Rightarrow> (s, [])))"

text \<open>The \<open>close\<close> handler (lines 323-352).\<close>

definition onClose :: "state \<Rightarrow> conn \<Rightarrow> state" where
  "onClose s ws =
     (let s1 =
        (case clientMeta s ws of
           None \<Rightarrow> s
         | Some m \<Rightarrow>
             (case gameId m of
                None \<Rightarrow> s
              | Some k \<Rightarrow>
                  (case (map_of (games s) k, role m) of
                     (Some g, Some r) \<Rightarrow>
                       (let g' = (if roles_at g r = Some ws then roles_set g r None else g);
                            stillP1 = (roles_p1 g' \<noteq> None);
                            stillP2 = (roles_p2 g' \<noteq> None)
                        in if \<not> stillP1 \<and> \<not> stillP2
                           then s\<lparr>games := AList.delete k (games s)\<rparr>
                           else s\<lparr>games := AList.update k g' (games s)\<rparr>)
                   | _ \<Rightarrow> s)))
      in s1\<lparr>clientMeta := (clientMeta s1)(ws := None)\<rparr>)"

text \<open>
  The heartbeat loop (lines 360-382) over \<open>wss.clients\<close>. \<open>ws.terminate()\<close> destroys the
  socket, which leaves the OPEN state at once; its \<open>close\<close> event is emitted by the
  transport afterwards.
\<close>

fun heartbeat_loop :: "conn list \<Rightarrow> state \<Rightarrow> state \<times> effect list" where
  "heartbeat_loop [] s = (s, [])"
| "heartbeat_loop (ws # rest) s =
     (case clientMeta s ws of
        None \<Rightarrow> heartbeat_loop rest s
      | Some m \<Rightarrow>
          if \<not> isAlive m then
            (case heartbeat_loop rest (s\<lparr>opened := opened s - {ws}\<rparr>) of
               (s', es) \<Rightarrow> (s', Terminate ws # es))
          else
            (case heartbeat_loop rest
                    (s\<lparr>clientMeta := (clientMeta s)(ws \<mapsto> m\<lparr>isAlive := False\<rparr>)\<rparr>) of
               (s', es) \<Rightarrow> (s', Ping ws # es)))"

definition heartbeat :: "state \<Rightarrow> state \<times> effect list" where
  "heartbeat s = heartbeat_loop (clients s) s"

section \<open>The event loop\<close>

text \<open>
  One event is handled to completion before the next. The transport delivers:
  a new connection; a message or a pong on a socket; the loss of the OPEN state of a
  socket (a close frame, a network error, a \<open>terminate\<close>) ahead of its \<open>close\<close> event;
  the \<open>close\<close> event itself, on which the socket leaves \<open>wss.clients\<close>; a timer tick.
  \<open>Message ws raw now\<close> carries the outcome of \<open>JSON.parse\<close> and the reading of the
  clock. The \<open>readyState\<close> of a socket belongs to the transport: the handlers only read
  it (lines 42, 92, 193, 222). Between the moment a socket leaves OPEN and its \<open>close\<close>
  event the socket still has its record and its slot.
\<close>

datatype event =
    Connection
  | Message conn "json option" int
  | Pong conn
  | Closing conn
  | Close conn
  | Heartbeat

definition init_state :: state where
  "init_state =
     \<lparr>clientMeta = Map.empty, games = [], nextGameId = 1, clients = [],
      opened = {}, nextConn = 0\<rparr>"

fun step :: "state \<Rightarrow> event \<Rightarrow> state \<times> effect list" where
  "step s Connection = (onConnection s, [])"
| "step s (Message ws raw now) = onMessage s ws raw now"
| "step s (Pong ws) = (onPong s ws, [])"
| "step s (Closing ws) = (s\<lparr>opened := opened s - {ws}\<rparr>, [])"
| "step s (Close ws) =
     (let s' = onClose s ws
      in (s'\<lparr>clients := removeAll ws (clients s'), opened := opened s' - {ws}\<rparr>, []))"
| "step s Heartbeat = heartbeat s"

text \<open>
  Handlers are attached to a socket in its \<open>connection\<close> event and the transport emits
  nothing for a socket after its \<open>close\<close> event: an event that names a socket is
  deliverable while the socket is in \<open>wss.clients\<close>. Nothing more is assumed of the
  transport here, so the runs include every order of events it can produce; a property
  that needs the sender of a message to be open says so.
\<close>

fun valid_event :: "state \<Rightarrow> event \<Rightarrow> bool" where
  "valid_event s Connection = True"
| "valid_event s (Message ws raw now) = (ws \<in> set (clients s))"
| "valid_event s (Pong ws) = (ws \<in> set (clients s))"
| "valid_event s (Closing ws) = (ws \<in> set (clients s))"
| "valid_event s (Close ws) = (ws \<in> set (clients s))"
| "valid_event s Heartbeat = True"

fun run :: "state \<Rightarrow> event list \<Rightarrow> state" where
  "run s [] = s"
| "run s (e # es) = run (fst (step s e)) es"

fun valid_run :: "state \<Rightarrow> event list \<Rightarrow> bool" where
  "valid_run s [] = True"
| "valid_run s (e # es) = (valid_event s e \<and> valid_run (fst (step s e)) es)"

section \<open>Consistency of the registry and the session store\<close>

text \<open>
  What holds between two events. \<open>games_ok\<close>: the keys of \<open>games\<close> are distinct (it is a
  Map), every game is stored under its own id, ids are below the counter, and scores are
  not negative. \<open>clients_ok\<close>: the sockets with a record are the connected ones, each
  created before \<open>nextConn\<close>, and only connected sockets are open. \<open>meta_ok\<close>: a record
  has a role exactly when it has a game id, and then that game is in the store with this
  socket in the slot of that role. \<open>slots_ok\<close>: the socket in a slot has a record that
  names this role and this game.
\<close>

definition games_ok :: "state \<Rightarrow> bool" where
  "games_ok s \<longleftrightarrow>
     distinct (map fst (games s)) \<and>
     (\<forall>k g. map_of (games s) k = Some g \<longrightarrow>
        game_id g = k \<and> k < nextGameId s \<and> 0 \<le> scores_p1 g \<and> 0 \<le> scores_p2 g)"

definition clients_ok :: "state \<Rightarrow> bool" where
  "clients_ok s \<longleftrightarrow>
     distinct (clients s) \<and> dom (clientMeta s) = set (clients s) \<and>
     opened s \<subseteq> set (clients s) \<and>
     (\<forall>c \<in> set (clients s). c < nextConn s)"

definition meta_ok :: "state \<Rightarrow> bool" where
  "meta_ok s \<longleftrightarrow>
     (\<forall>c m. clientMeta s c = Some m \<longrightarrow>
        (role m = None \<longleftrightarrow> gameId m = None) \<and>
        (\<forall>r k. role m = Some r \<longrightarrow> gameId m = Some k \<longrightarrow>
           (\<exists>g. map_of (games s) k = Some g \<and> roles_at g r = Some c)))"

definition slots_ok :: "state \<Rightarrow> bool" where
  "slots_ok s \<longleftrightarrow>
     (\<forall>k g r c. map_of (games s) k = Some g \<longrightarrow> roles_at g r = Some c \<longrightarrow>
        (\<exists>m. clientMeta s c = Some m \<and> role m = Some r \<and> gameId m = Some k))"

definition consistent :: "state \<Rightarrow> bool" where
  "consistent s \<longleftrightarrow> games_ok s \<and> clients_ok s \<and> meta_ok s \<and> slots_ok s"

section \<open>Notions used to state the properties\<close>

subsection \<open>Relayed fields\<close>

text \<open>
  How an outgoing field relates to the sender's field \<open>k\<close>. \<open>passes\<close>: the sender's
  value when it is a finite number, null when it is an infinity (a number beyond the range
  of doubles), and the default \<open>d\<close> when it is absent or not a number.
  \<open>passes_truthy\<close>: what JSON writes for the sender's value when that is present and
  truthy, and null otherwise. \<open>carries_number\<close>, \<open>carries_truthy\<close>: the same with an
  absent field in place of the default. \<open>in_range\<close>: no number in the value is an
  infinity; JSON writes such a value as it is.
\<close>

definition passes :: "json \<Rightarrow> string \<Rightarrow> json \<Rightarrow> json \<Rightarrow> bool" where
  "passes data k d out \<longleftrightarrow>
     (case field data k of
        Some (JNum (Fin x)) \<Rightarrow> out = JNum (Fin x)
      | Some (JNum PlusInfinity) \<Rightarrow> out = JNull
      | Some (JNum MinusInfinity) \<Rightarrow> out = JNull
      | _ \<Rightarrow> out = d)"

definition passes_truthy :: "json \<Rightarrow> string \<Rightarrow> json \<Rightarrow> bool" where
  "passes_truthy data k out \<longleftrightarrow>
     (case field data k of
        None \<Rightarrow> out = JNull
      | Some v \<Rightarrow> out = (if truthy v then stringify v else JNull))"

definition carries_number :: "json \<Rightarrow> string \<Rightarrow> json option \<Rightarrow> bool" where
  "carries_number data k out \<longleftrightarrow>
     (case field data k of
        Some (JNum (Fin x)) \<Rightarrow> out = Some (JNum (Fin x))
      | Some (JNum PlusInfinity) \<Rightarrow> out = Some JNull
      | Some (JNum MinusInfinity) \<Rightarrow> out = Some JNull
      | _ \<Rightarrow> out = None)"

definition carries_truthy :: "json \<Rightarrow> string \<Rightarrow> json option \<Rightarrow> bool" where
  "carries_truthy data k out \<longleftrightarrow>
     (case field data k of
        None \<Rightarrow> out = None
      | Some v \<Rightarrow> out = (if truthy v then Some (stringify v) else None))"

fun in_range :: "json \<Rightarrow> bool" where
  "in_range JNull = True"
| "in_range (JBool b) = True"
| "in_range (JNum (Fin x)) = True"
| "in_range (JNum PlusInfinity) = False"
| "in_range (JNum MinusInfinity) = False"
| "in_range (JStr str) = True"
| "in_range (JArr xs) = list_all in_range xs"
| "in_range (JObj kvs) = list_all (\<lambda>kv. in_range (snd kv)) kvs"

subsection \<open>Ignored inputs\<close>

text \<open>
  The inputs of the \<open>message\<close> handler that the dispatcher has no handler for: text that
  does not parse, a value without a \<open>type\<close>, a \<open>type\<close> that is not a string, a
  \<open>type\<close> that no \<open>case\<close> of the \<open>switch\<close> names.
\<close>

definition recognized :: "string list" where
  "recognized = [''hello'', ''state'', ''shot'', ''hit'', ''reset-match'']"

fun ignored_input :: "json option \<Rightarrow> bool" where
  "ignored_input None = True"
| "ignored_input (Some data) =
     (case field data ''type'' of
        None \<Rightarrow> True
      | Some (JStr ty) \<Rightarrow> ty \<notin> set recognized
      | Some v \<Rightarrow> True)"

subsection \<open>First fit\<close>

text \<open>
  The search of the Matchmaker in the words of the specification: the first session, in
  creation order, whose count of non-empty slots is below 2 and whose desired slot is
  empty. \<open>desired\<close> is the role a \<open>hello\<close> asks for (line 178); \<open>new_game\<close> is the
  object created at lines 148-152. Ids come from a counter that only grows, so a session
  was created before another exactly when its id is smaller: \<open>creation_order\<close> says that
  the store lists the sessions by growing id.
\<close>

definition creation_order :: "state \<Rightarrow> bool" where
  "creation_order s \<longleftrightarrow> sorted_wrt (<) (map fst (games s))"

definition occupancy :: "game \<Rightarrow> nat" where
  "occupancy g = length (filter (\<lambda>v. v \<noteq> None) [roles_p1 g, roles_p2 g])"

definition first_fit :: "role \<Rightarrow> (gameid \<times> game) list \<Rightarrow> (gameid \<times> game) option" where
  "first_fit r gs = List.find (\<lambda>(k, g). occupancy g < 2 \<and> roles_at g r = None) gs"

definition desired :: "json \<Rightarrow> role" where
  "desired data = (if field data ''role'' = Some (JStr ''p2'') then P2 else P1)"

definition new_game :: "gameid \<Rightarrow> game" where
  "new_game n = \<lparr>game_id = n, roles_p1 = None, roles_p2 = None, scores_p1 = 0, scores_p2 = 0\<rparr>"

subsection \<open>Scores\<close>

text \<open>
  The two counters of the session \<open>k\<close>, if it is in the store. \<open>enemy_kind\<close>: the
  \<open>kind\<close> of a \<open>hit\<close> is the string \<open>enemy\<close>, or is absent, or is not a string.
  A scoring event is a \<open>hit\<close> message of that kind or a \<open>reset-match\<close> message.
  \<open>kept s s'\<close>: every session of \<open>s'\<close> has the scores it had in \<open>s\<close>, or is new with
  both scores zero.
\<close>

definition score_of :: "state \<Rightarrow> gameid \<Rightarrow> (int \<times> int) option" where
  "score_of s k = map_option (\<lambda>g. (scores_p1 g, scores_p2 g)) (map_of (games s) k)"

definition enemy_kind :: "json \<Rightarrow> bool" where
  "enemy_kind data \<longleftrightarrow>
     (case field data ''kind'' of
        Some (JStr str) \<Rightarrow> str = ''enemy''
      | _ \<Rightarrow> True)"

fun scoring_input :: "json option \<Rightarrow> bool" where
  "scoring_input None = False"
| "scoring_input (Some data) =
     (field data ''type'' = Some (JStr ''hit'') \<and> enemy_kind data \<or>
      field data ''type'' = Some (JStr ''reset-match''))"

fun scoring_event :: "event \<Rightarrow> bool" where
  "scoring_event (Message ws raw now) = scoring_input raw"
| "scoring_event e = False"

definition kept :: "state \<Rightarrow> state \<Rightarrow> bool" where
  "kept s s' \<longleftrightarrow>
     (\<forall>k. score_of s' k = score_of s k \<or> score_of s' k = None \<or>
          (score_of s k = None \<and> score_of s' k = Some (0, 0)))"

subsection \<open>Liveness\<close>

text \<open>
  \<open>overdue c s\<close>: the socket \<open>c\<close> exists and, if it is still open, its record says that
  no pong has arrived since the last ping. \<open>gone c s\<close>: the socket \<open>c\<close> exists and its
  \<open>close\<close> event has been handled. \<open>terminated\<close>: the sockets on which a list of
  effects calls \<open>terminate\<close>. \<open>run_effects\<close>: the effects of a run, in order.
\<close>

definition overdue :: "conn \<Rightarrow> state \<Rightarrow> bool" where
  "overdue c s \<longleftrightarrow>
     c < nextConn s \<and> (c \<in> opened s \<longrightarrow> (\<exists>m. clientMeta s c = Some m \<and> \<not> isAlive m))"

definition gone :: "conn \<Rightarrow> state \<Rightarrow> bool" where
  "gone c s \<longleftrightarrow> c < nextConn s \<and> c \<notin> set (clients s)"

fun terminated :: "effect list \<Rightarrow> conn list" where
  "terminated [] = []"
| "terminated (Terminate c # es) = c # terminated es"
| "terminated (e # es) = terminated es"

fun run_effects :: "state \<Rightarrow> event list \<Rightarrow> effect list" where
  "run_effects s [] = []"
| "run_effects s (e # es) = snd (step s e) @ run_effects (fst (step s e)) es"

text \<open>
  Modelled from the spec: what follows \<open>ws.terminate()\<close>. The \<open>ws\<close> library, which
  emits the \<open>close\<close> event, is not part of the source. Section 4.5 of the specification
  says that a connection found with a false flag "is forcibly terminated and its cleanup
  path (as in disconnect handling) runs", and section 4.6 that the cleanup is what
  happens "on connection close (whether via Liveness Monitor termination or external
  close)". So one tick of the monitor is the sweep followed by the \<open>close\<close> event of
  every socket the sweep has terminated, in the order of the sweep; \<open>tick s\<close> is the
  state after it.
\<close>

definition tick_events :: "state \<Rightarrow> event list" where
  "tick_events s = Heartbeat # map Close (terminated (snd (heartbeat s)))"

definition tick :: "state \<Rightarrow> state" where
  "tick s = run s (tick_events s)"

text \<open>
  \<open>stale c s\<close>: the socket \<open>c\<close> exists and, if it is still in \<open>wss.clients\<close>, its
  record says that no pong has arrived since the last ping.
\<close>

definition stale :: "conn \<Rightarrow> state \<Rightarrow> bool" where
  "stale c s \<longleftrightarrow>
     c < nextConn s \<and>
     (c \<in> set (clients s) \<longrightarrow> (\<exists>m. clientMeta s c = Some m \<and> \<not> isAlive m))"

section \<open>Concrete messages and runs\<close>

text \<open>Messages.\<close>

definition msg_plain :: "string \<Rightarrow> json" where
  "msg_plain ty = JObj [(''type'', JStr ty)]"

definition msg_hello :: "string \<Rightarrow> json" where
  "msg_hello r = JObj [(''type'', JStr ''hello''), (''role'', JStr r)]"

definition msg_state :: json where
  "msg_state = JObj [(''type'', JStr ''state''), (''snapX'', JNum (Fin 1.5))]"

text \<open>The decoded form of \<open>{"type": "state", "snapX": 1e400}\<close>.\<close>

definition msg_state_big :: json where
  "msg_state_big = JObj [(''type'', JStr ''state''), (''snapX'', JNum PlusInfinity)]"

definition msg_shot_zero :: json where
  "msg_shot_zero = JObj [(''type'', JStr ''shot''), (''start'', JNum (Fin 0))]"

text \<open>The decoded form of \<open>{"type": "shot", "start": [1e400], "t": 1e400}\<close>.\<close>

definition msg_shot_big :: json where
  "msg_shot_big =
     JObj [(''type'', JStr ''shot''), (''start'', JArr [JNum PlusInfinity]),
           (''t'', JNum PlusInfinity)]"

definition msg_shot :: json where
  "msg_shot =
     JObj [(''type'', JStr ''shot''),
           (''start'', JObj [(''x'', JNum (Fin 1)), (''y'', JNum (Fin 2)), (''z'', JNum (Fin 3))]),
           (''velocity'', JArr [JNum (Fin 0), JNum (Fin 0), JNum (Fin 4)]),
           (''radius'', JNum (Fin 0.5)),
           (''color'', JStr ''red'')]"

definition msg_hit_kind :: "json \<Rightarrow> json" where
  "msg_hit_kind v = JObj [(''type'', JStr ''hit''), (''kind'', v)]"

text \<open>
  Two sockets connect; socket 0 joins as p1 and socket 1 as p2. The run ends in the state
  \<open>paired\<close>: one game, with id 1, holding both.
\<close>

definition two_players :: "event list" where
  "two_players =
     [Connection, Connection,
      Message 0 (Some (msg_hello ''p1'')) 0, Message 1 (Some (msg_hello ''p2'')) 0]"

definition paired :: state where
  "paired =
     \<lparr>clientMeta = [0 \<mapsto> \<lparr>role = Some P1, isAlive = True, gameId = Some 1\<rparr>,
                    1 \<mapsto> \<lparr>role = Some P2, isAlive = True, gameId = Some 1\<rparr>],
      games = [(1, \<lparr>game_id = 1, roles_p1 = Some 0, roles_p2 = Some 1,
                    scores_p1 = 0, scores_p2 = 0\<rparr>)],
      nextGameId = 2, clients = [0, 1], opened = {0, 1}, nextConn = 2\<rparr>"

text \<open>Then socket 0 closes.\<close>

definition one_left :: "event list" where
  "one_left = two_players @ [Close 0]"

text \<open>
  Or else: socket 1 scores, sockets 2 and 3 connect, socket 2 joins as p2 (a second
  game, since p2 of game 1 is taken), and socket 0 closes.
\<close>

definition three_players :: "event list" where
  "three_players =
     two_players @
     [Message 1 (Some (msg_plain ''hit'')) 0, Connection, Connection,
      Message 2 (Some (msg_hello ''p2'')) 0, Close 0]"

section \<open>Preservation of consistency\<close>

lemma consistent_init: "consistent init_state"
  by (simp add: consistent_def games_ok_def clients_ok_def meta_ok_def slots_ok_def init_state_def)

lemma ok_opened [simp]:
  "games_ok (s\<lparr>opened := X\<rparr>) = games_ok s"
  "meta_ok (s\<lparr>opened := X\<rparr>) = meta_ok s"
  "slots_ok (s\<lparr>opened := X\<rparr>) = slots_ok s"
  by (simp_all add: games_ok_def meta_ok_def slots_ok_def)

lemma consistent_opened:
  "consistent s \<Longrightarrow> X \<subseteq> opened s \<Longrightarrow> consistent (s\<lparr>opened := X\<rparr>)"
  by (auto simp add: consistent_def clients_ok_def)

lemma consistent_alive:
  assumes "consistent s" "clientMeta s ws = Some m"
  shows "consistent (s\<lparr>clientMeta := (clientMeta s)(ws \<mapsto> m\<lparr>isAlive := b\<rparr>)\<rparr>)"
proof -
  let ?s = "s\<lparr>clientMeta := (clientMeta s)(ws \<mapsto> m\<lparr>isAlive := b\<rparr>)\<rparr>"
  have g: "games_ok ?s" using assms(1) by (simp add: consistent_def games_ok_def)
  have c: "clients_ok ?s" using assms by (auto simp add: consistent_def clients_ok_def)
  have m: "meta_ok ?s" using assms unfolding consistent_def meta_ok_def by auto
  have sl: "slots_ok ?s"
    unfolding slots_ok_def
  proof (intro allI impI)
    fix k g r c
    assume "map_of (games ?s) k = Some g" "roles_at g r = Some c"
    then obtain m0 where "clientMeta s c = Some m0" "role m0 = Some r" "gameId m0 = Some k"
      using assms(1) unfolding consistent_def slots_ok_def by fastforce
    then show "\<exists>ma. clientMeta ?s c = Some ma \<and> role ma = Some r \<and> gameId ma = Some k"
      using assms(2) by (cases "c = ws") auto
  qed
  show ?thesis using g c m sl by (simp add: consistent_def)
qed

lemma consistent_onConnection: "consistent s \<Longrightarrow> consistent (onConnection s)"
proof -
  assume a: "consistent s"
  have fresh: "clientMeta s (nextConn s) = None"
    using a unfolding consistent_def clients_ok_def by (metis domIff less_irrefl)
  have g: "games_ok (onConnection s)" using a by (simp add: consistent_def games_ok_def onConnection_def Let_def)
  have c: "clients_ok (onConnection s)" using a 
    by (auto simp add: consistent_def clients_ok_def onConnection_def Let_def less_Suc_eq)
  have m: "meta_ok (onConnection s)" using a unfolding consistent_def meta_ok_def 
    by (auto simp add: onConnection_def Let_def)
  have sl: "slots_ok (onConnection s)"
    unfolding slots_ok_def
  proof (intro allI impI)
    fix k g r c
    assume "map_of (games (onConnection s)) k = Some g" "roles_at g r = Some c"
    then obtain m0 where "clientMeta s c = Some m0" "role m0 = Some r" "gameId m0 = Some k"
      using a unfolding consistent_def slots_ok_def by (fastforce simp add: onConnection_def Let_def)
    then show "\<exists>ma. clientMeta (onConnection s) c = Some ma \<and> role ma = Some r \<and> gameId ma = Some k"
      using fresh by (cases "c = nextConn s") (auto simp add: onConnection_def Let_def)
  qed
  show ?thesis using g c m sl by (simp add: consistent_def)
qed

lemma consistent_onPong: "consistent s \<Longrightarrow> consistent (onPong s ws)"
  by (auto simp add: onPong_def consistent_alive split: option.splits)

lemma consistent_heartbeat_loop: "consistent s \<Longrightarrow> consistent (fst (heartbeat_loop cs s))"
proof (induction cs arbitrary: s)
  case Nil
  then show ?case by simp
next
  case (Cons ws rest)
  show ?case
  proof (cases "clientMeta s ws")
    case None
    then show ?thesis using Cons by simp
  next
    case (Some m)
    show ?thesis
    proof (cases "isAlive m")
      case True
      have "consistent (s\<lparr>clientMeta := (clientMeta s)(ws \<mapsto> m\<lparr>isAlive := False\<rparr>)\<rparr>)"
        using Cons.prems Some by (rule consistent_alive)
      from Cons.IH[OF this] show ?thesis using Some True by (simp add: split_beta)
    next
      case False
      have "consistent (s\<lparr>opened := opened s - {ws}\<rparr>)"
        using Cons.prems by (rule consistent_opened) blast
      from Cons.IH[OF this] show ?thesis using Some False by (simp add: split_beta)
    qed
  qed
qed

lemma roles_at_set [simp]: "roles_at (roles_set g r v) r' = (if r' = r then v else roles_at g r')"
  by (cases r; cases r') simp_all

lemma roles_set_fields [simp]:
  "game_id (roles_set g r v) = game_id g"
  "scores_p1 (roles_set g r v) = scores_p1 g"
  "scores_p2 (roles_set g r v) = scores_p2 g"
  by (cases r; simp)+

lemma findGame_SomeD:
  "findGame r al = Some (k, g) \<Longrightarrow> (k, g) \<in> set al \<and> roles_at g r = None"
  by (induction al) (auto simp add: Let_def split: if_splits)

lemma consistent_claim:
  assumes c: "consistent s" and m: "clientMeta s ws = Some m" and r: "role m = None"
    and g: "map_of (games s) k = Some g" and e: "roles_at g r = None"
  shows "consistent (s\<lparr>games := AList.update k (roles_set g r (Some ws)) (games s),
                        clientMeta := (clientMeta s)(ws \<mapsto> m\<lparr>role := Some r, gameId := Some k\<rparr>)\<rparr>)"
    (is "consistent ?s")
proof -
  have gs: "map_of (games ?s) = (map_of (games s))(k \<mapsto> roles_set g r (Some ws))"
    by (simp add: update_conv')
  have cm: "clientMeta ?s = (clientMeta s)(ws \<mapsto> m\<lparr>role := Some r, gameId := Some k\<rparr>)"
    by simp
  have gok: "games_ok s" and cok: "clients_ok s" and mok: "meta_ok s" and sok: "slots_ok s"
    using c by (simp_all add: consistent_def)
  have 1: "games_ok ?s"
    unfolding games_ok_def gs using gok g unfolding games_ok_def
    by (auto simp add: distinct_update)
  have 2: "clients_ok ?s"
    using cok m by (auto simp add: clients_ok_def)
  have 3: "meta_ok ?s"
    unfolding meta_ok_def gs cm
  proof (intro allI impI)
    fix c m'
    assume a: "((clientMeta s)(ws \<mapsto> m\<lparr>role := Some r, gameId := Some k\<rparr>)) c = Some m'"
    show "(role m' = None \<longleftrightarrow> gameId m' = None) \<and>
          (\<forall>r' k'. role m' = Some r' \<longrightarrow> gameId m' = Some k' \<longrightarrow>
             (\<exists>g'. ((map_of (games s))(k \<mapsto> roles_set g r (Some ws))) k' = Some g' \<and>
                   roles_at g' r' = Some c))"
    proof (cases "c = ws")
      case True
      then show ?thesis using a by auto
    next
      case False
      then have old: "clientMeta s c = Some m'" using a by simp
      from mok old have p1: "role m' = None \<longleftrightarrow> gameId m' = None"
        unfolding meta_ok_def by blast
      have p2: "\<exists>g'. ((map_of (games s))(k \<mapsto> roles_set g r (Some ws))) k' = Some g' \<and>
                   roles_at g' r' = Some c" if "role m' = Some r'" "gameId m' = Some k'" for r' k'
      proof -
        from mok old that obtain g0 where g0: "map_of (games s) k' = Some g0" "roles_at g0 r' = Some c"
          unfolding meta_ok_def by blast
        show ?thesis
        proof (cases "k' = k")
          case True
          then have "g0 = g" using g0 g by simp
          then have "r' \<noteq> r" using g0 e by auto
          then show ?thesis using True g0 \<open>g0 = g\<close> by simp
        next
          case False
          then show ?thesis using g0 by simp
        qed
      qed
      show ?thesis using p1 p2 by blast
    qed
  qed
  have 4: "slots_ok ?s"
    unfolding slots_ok_def gs cm
  proof (intro allI impI)
    fix k' g' r' c
    assume a: "((map_of (games s))(k \<mapsto> roles_set g r (Some ws))) k' = Some g'"
      and b: "roles_at g' r' = Some c"
    show "\<exists>ma. ((clientMeta s)(ws \<mapsto> m\<lparr>role := Some r, gameId := Some k\<rparr>)) c = Some ma \<and>
               role ma = Some r' \<and> gameId ma = Some k'"
    proof (cases "k' = k \<and> r' = r")
      case True
      then have "c = ws" using a b by auto
      then show ?thesis using True by simp
    next
      case False
      have "\<exists>g0. map_of (games s) k' = Some g0 \<and> roles_at g0 r' = Some c"
      proof (cases "k' = k")
        case True
        then show ?thesis using a b False g by auto
      next
        case False
        then show ?thesis using a b by auto
      qed
      then obtain m0 where m0: "clientMeta s c = Some m0" "role m0 = Some r'" "gameId m0 = Some k'"
        using sok unfolding slots_ok_def by blast
      then have "c \<noteq> ws" using m r by auto
      then show ?thesis using m0 by simp
    qed
  qed
  show ?thesis using 1 2 3 4 by (simp add: consistent_def)
qed

lemma consistent_newgame:
  assumes c: "consistent s"
  shows "consistent (s\<lparr>nextGameId := nextGameId s + 1,
            games := AList.update (nextGameId s)
               \<lparr>game_id = nextGameId s, roles_p1 = None, roles_p2 = None,
                scores_p1 = 0, scores_p2 = 0\<rparr> (games s)\<rparr>)"
    (is "consistent ?s")
proof -
  let ?g = "\<lparr>game_id = nextGameId s, roles_p1 = None, roles_p2 = None,
                scores_p1 = 0, scores_p2 = 0\<rparr>"
  have gok: "games_ok s" and cok: "clients_ok s" and mok: "meta_ok s" and sok: "slots_ok s"
    using c by (simp_all add: consistent_def)
  have fresh: "map_of (games s) (nextGameId s) = None"
    using gok unfolding games_ok_def by (metis less_irrefl not_Some_eq)
  have gs: "map_of (games ?s) = (map_of (games s))(nextGameId s \<mapsto> ?g)"
    by (simp add: update_conv')
  have empty: "roles_at ?g r = None" for r by (cases r) simp_all
  have 1: "games_ok ?s"
    unfolding games_ok_def gs using gok unfolding games_ok_def
    by (auto simp add: distinct_update less_Suc_eq)
  have 2: "clients_ok ?s" using cok by (simp add: clients_ok_def)
  have 3: "meta_ok ?s"
    unfolding meta_ok_def gs using mok fresh unfolding meta_ok_def
    by (simp; metis option.distinct(1))
  have 4: "slots_ok ?s"
    unfolding slots_ok_def gs using sok empty unfolding slots_ok_def
    by (simp; metis option.distinct(1))
  show ?thesis using 1 2 3 4 by (simp add: consistent_def)
qed


lemma consistent_claimRole:
  assumes c: "consistent s" and m: "clientMeta s ws = Some m" and r: "role m = None"
  shows "consistent (fst (claimRole s ws m r))"
proof (cases "findGame r (games s)")
  case None
  let ?n = "nextGameId s"
  let ?g = "\<lparr>game_id = ?n, roles_p1 = None, roles_p2 = None, scores_p1 = 0, scores_p2 = 0\<rparr>"
  let ?s1 = "s\<lparr>nextGameId := ?n + 1, games := AList.update ?n ?g (games s)\<rparr>"
  have e: "roles_at ?g r = None" by (cases r) simp_all
  have "consistent (?s1\<lparr>games := AList.update ?n (roles_set ?g r (Some ws)) (games ?s1),
           clientMeta := (clientMeta ?s1)(ws \<mapsto> m\<lparr>role := Some r, gameId := Some ?n\<rparr>)\<rparr>)"
    by (rule consistent_claim[OF consistent_newgame[OF c]])
       (use m r e in \<open>simp_all add: update_conv'\<close>)
  then show ?thesis using None by (simp add: claimRole_def targetGame_def Let_def)
next
  case (Some kg)
  obtain k g where kg: "kg = (k, g)" by (cases kg)
  have gok: "games_ok s" using c by (simp add: consistent_def)
  from findGame_SomeD[of r "games s" k g] Some kg
  have mem: "(k, g) \<in> set (games s)" and e: "roles_at g r = None" by simp_all
  have g: "map_of (games s) k = Some g" using mem gok by (simp add: games_ok_def)
  have id: "game_id g = k" using g gok unfolding games_ok_def by blast
  have "consistent (s\<lparr>games := AList.update k (roles_set g r (Some ws)) (games s),
           clientMeta := (clientMeta s)(ws \<mapsto> m\<lparr>role := Some r, gameId := Some k\<rparr>)\<rparr>)"
    by (rule consistent_claim[OF c m r g e])
  then show ?thesis using Some kg id by (simp add: claimRole_def targetGame_def Let_def)
qed

lemma consistent_assignClientToGame:
  assumes c: "consistent s" and v: "ws \<in> set (clients s)"
  shows "consistent (fst (assignClientToGame s ws d))"
proof -
  have mok: "meta_ok s" and cok: "clients_ok s" using c by (simp_all add: consistent_def)
  from v cok obtain m where m: "clientMeta s ws = Some m"
    unfolding clients_ok_def by blast
  show ?thesis
  proof (cases "gameId m \<noteq> None \<and> role m \<noteq> None")
    case True
    then show ?thesis using m c by (simp add: assignClientToGame_def)
  next
    case False
    then have "role m = None" using mok m unfolding meta_ok_def by blast
    from consistent_claimRole[OF c m this] show ?thesis
      using m False c by (simp add: assignClientToGame_def)
  qed
qed

lemma consistent_game_upd:
  assumes c: "consistent s" and g: "map_of (games s) k = Some g"
    and same: "game_id g' = game_id g" "roles_p1 g' = roles_p1 g" "roles_p2 g' = roles_p2 g"
    and nn: "0 \<le> scores_p1 g'" "0 \<le> scores_p2 g'"
  shows "consistent (s\<lparr>games := AList.update k g' (games s)\<rparr>)" (is "consistent ?s")
proof -
  have gok: "games_ok s" and cok: "clients_ok s" and mok: "meta_ok s" and sok: "slots_ok s"
    using c by (simp_all add: consistent_def)
  have gs: "map_of (games ?s) = (map_of (games s))(k \<mapsto> g')"
    by (simp add: update_conv')
  have ra: "roles_at g' r = roles_at g r" for r using same by (cases r) simp_all
  have 1: "games_ok ?s"
    unfolding games_ok_def gs using gok g same nn unfolding games_ok_def
    by (auto simp add: distinct_update)
  have 2: "clients_ok ?s" using cok by (simp add: clients_ok_def)
  have 3: "meta_ok ?s"
    unfolding meta_ok_def gs
  proof (intro allI impI)
    fix c m
    assume a: "clientMeta ?s c = Some m"
    then have old: "clientMeta s c = Some m" by simp
    from mok old have p1: "role m = None \<longleftrightarrow> gameId m = None"
      unfolding meta_ok_def by blast
    have p2: "\<exists>g0. ((map_of (games s))(k \<mapsto> g')) k' = Some g0 \<and> roles_at g0 r' = Some c"
      if "role m = Some r'" "gameId m = Some k'" for r' k'
    proof -
      from mok old that obtain g0 where g0: "map_of (games s) k' = Some g0" "roles_at g0 r' = Some c"
        unfolding meta_ok_def by blast
      show ?thesis using g0 g ra by (cases "k' = k") auto
    qed
    show "(role m = None \<longleftrightarrow> gameId m = None) \<and>
          (\<forall>r' k'. role m = Some r' \<longrightarrow> gameId m = Some k' \<longrightarrow>
             (\<exists>g0. ((map_of (games s))(k \<mapsto> g')) k' = Some g0 \<and> roles_at g0 r' = Some c))"
      using p1 p2 by blast
  qed
  have 4: "slots_ok ?s"
    unfolding slots_ok_def gs
  proof (intro allI impI)
    fix k' g0 r' c
    assume a: "((map_of (games s))(k \<mapsto> g')) k' = Some g0" and b: "roles_at g0 r' = Some c"
    have "\<exists>g1. map_of (games s) k' = Some g1 \<and> roles_at g1 r' = Some c"
      using a b g ra by (cases "k' = k") auto
    then obtain m0 where "clientMeta s c = Some m0" "role m0 = Some r'" "gameId m0 = Some k'"
      using sok unfolding slots_ok_def by blast
    then show "\<exists>ma. clientMeta ?s c = Some ma \<and> role ma = Some r' \<and> gameId ma = Some k'"
      by simp
  qed
  show ?thesis using 1 2 3 4 by (simp add: consistent_def)
qed

lemma consistent_handleHit: "consistent s \<Longrightarrow> consistent (fst (handleHit s ws data))"
proof -
  assume c: "consistent s"
  have up: "consistent (s\<lparr>games := AList.update k (g\<lparr>scores_p1 := scores_p1 g + 1\<rparr>) (games s)\<rparr>)"
           "consistent (s\<lparr>games := AList.update k (g\<lparr>scores_p2 := scores_p2 g + 1\<rparr>) (games s)\<rparr>)"
    if g: "map_of (games s) k = Some g" for k g
  proof -
    have nn: "0 \<le> scores_p1 g \<and> 0 \<le> scores_p2 g"
      using c g unfolding consistent_def games_ok_def by blast
    show "consistent (s\<lparr>games := AList.update k (g\<lparr>scores_p1 := scores_p1 g + 1\<rparr>) (games s)\<rparr>)"
      by (rule consistent_game_upd[OF c g]) (use nn in simp_all)
    show "consistent (s\<lparr>games := AList.update k (g\<lparr>scores_p2 := scores_p2 g + 1\<rparr>) (games s)\<rparr>)"
      by (rule consistent_game_upd[OF c g]) (use nn in simp_all)
  qed
  show ?thesis
    unfolding handleHit_def
    by (simp add: Let_def c up split: option.splits)
qed

lemma consistent_handleResetMatch: "consistent s \<Longrightarrow> consistent (fst (handleResetMatch s ws))"
  unfolding handleResetMatch_def resetMatchForGame_def
  by (auto simp add: Let_def consistent_game_upd split: option.splits)

lemma consistent_onMessage:
  "consistent s \<Longrightarrow> ws \<in> set (clients s) \<Longrightarrow> consistent (fst (onMessage s ws raw now))"
  unfolding onMessage_def handleHello_def
  by (auto simp add: consistent_assignClientToGame consistent_handleHit
        consistent_handleResetMatch split: option.splits json.splits)


text \<open>Removing a socket that holds no slot.\<close>

lemma consistent_forget:
  assumes c: "consistent s"
    and free: "\<And>k g r. map_of (games s) k = Some g \<Longrightarrow> roles_at g r \<noteq> Some ws"
  shows "consistent (s\<lparr>clientMeta := (clientMeta s)(ws := None),
                       clients := removeAll ws (clients s), opened := opened s - {ws}\<rparr>)"
    (is "consistent ?s")
proof -
  have gok: "games_ok s" and cok: "clients_ok s" and mok: "meta_ok s" and sok: "slots_ok s"
    using c by (simp_all add: consistent_def)
  have 1: "games_ok ?s" using gok by (simp add: games_ok_def)
  have 2: "clients_ok ?s" using cok by (auto simp add: clients_ok_def distinct_removeAll)
  have 3: "meta_ok ?s"
    unfolding meta_ok_def
  proof (intro allI impI)
    fix c m
    assume "clientMeta ?s c = Some m"
    then have "clientMeta s c = Some m" by (simp split: if_splits)
    then show "(role m = None \<longleftrightarrow> gameId m = None) \<and>
       (\<forall>r k. role m = Some r \<longrightarrow> gameId m = Some k \<longrightarrow>
          (\<exists>g. map_of (games ?s) k = Some g \<and> roles_at g r = Some c))"
      using mok unfolding meta_ok_def by simp
  qed
  have 4: "slots_ok ?s"
    unfolding slots_ok_def
  proof (intro allI impI)
    fix k g r c
    assume "map_of (games ?s) k = Some g" and b: "roles_at g r = Some c"
    then have a: "map_of (games s) k = Some g" by simp
    then obtain m0 where m0: "clientMeta s c = Some m0" "role m0 = Some r" "gameId m0 = Some k"
      using sok b unfolding slots_ok_def by blast
    have "c \<noteq> ws" using free[OF a, of r] b by auto
    then show "\<exists>ma. clientMeta ?s c = Some ma \<and> role ma = Some r \<and> gameId ma = Some k"
      using m0 by simp
  qed
  show ?thesis using 1 2 3 4 by (simp add: consistent_def)
qed

text \<open>Emptying the slot a socket holds, and dropping the game when that was its last.\<close>

lemma consistent_leave:
  assumes c: "consistent s" and m: "clientMeta s ws = Some m"
    and r: "role m = Some r" and k: "gameId m = Some k"
    and g: "map_of (games s) k = Some g"
  shows "consistent (s\<lparr>games := (if roles_p1 (roles_set g r None) = None \<and>
                                       roles_p2 (roles_set g r None) = None
                                    then AList.delete k (games s)
                                    else AList.update k (roles_set g r None) (games s)),
                       clientMeta := (clientMeta s)(ws := None),
                       clients := removeAll ws (clients s), opened := opened s - {ws}\<rparr>)"
    (is "consistent ?s")
proof -
  let ?g = "roles_set g r None"
  let ?e = "roles_p1 ?g = None \<and> roles_p2 ?g = None"
  have gok: "games_ok s" and cok: "clients_ok s" and mok: "meta_ok s" and sok: "slots_ok s"
    using c by (simp_all add: consistent_def)
  have holds: "roles_at g r = Some ws"
    using mok m r k g unfolding meta_ok_def by fastforce
  have gs: "map_of (games ?s) = (if ?e then (map_of (games s))(k := None)
                                 else (map_of (games s))(k \<mapsto> ?g))"
    by (simp add: update_conv' delete_conv')
  have empty: "roles_at ?g r' = None" if "?e" for r' using that by (cases r') simp_all
  have 1: "games_ok ?s"
    unfolding games_ok_def gs using gok g unfolding games_ok_def
    by (auto simp add: distinct_update distinct_delete)
  have 2: "clients_ok ?s" using cok by (auto simp add: clients_ok_def distinct_removeAll)
  have 3: "meta_ok ?s"
    unfolding meta_ok_def gs
  proof (intro allI impI)
    fix c m'
    assume a: "clientMeta ?s c = Some m'"
    then have ne: "c \<noteq> ws" and old: "clientMeta s c = Some m'" by (simp_all split: if_splits)
    from mok old have p1: "role m' = None \<longleftrightarrow> gameId m' = None"
      unfolding meta_ok_def by blast
    have p2: "\<exists>g'. (if ?e then (map_of (games s))(k := None)
                     else (map_of (games s))(k \<mapsto> ?g)) k' = Some g' \<and> roles_at g' r' = Some c"
      if "role m' = Some r'" "gameId m' = Some k'" for r' k'
    proof -
      from mok old that obtain g0 where g0: "map_of (games s) k' = Some g0" "roles_at g0 r' = Some c"
        unfolding meta_ok_def by blast
      show ?thesis
      proof (cases "k' = k")
        case True
        then have eq: "g0 = g" using g0 g by simp
        then have "r' \<noteq> r" using g0 holds ne by auto
        then have keep: "roles_at ?g r' = Some c" using g0 eq by simp
        have "\<not> ?e"
        proof
          assume "?e"
          then have "roles_at ?g r' = None" by (rule empty)
          with keep show False by simp
        qed
        then show ?thesis using True keep by simp
      next
        case False
        then show ?thesis using g0 by simp
      qed
    qed
    show "(role m' = None \<longleftrightarrow> gameId m' = None) \<and>
          (\<forall>r' k'. role m' = Some r' \<longrightarrow> gameId m' = Some k' \<longrightarrow>
             (\<exists>g'. (if ?e then (map_of (games s))(k := None)
                     else (map_of (games s))(k \<mapsto> ?g)) k' = Some g' \<and> roles_at g' r' = Some c))"
      using p1 p2 by blast
  qed
  have 4: "slots_ok ?s"
    unfolding slots_ok_def gs
  proof (intro allI impI)
    fix k' g' r' c
    assume a: "(if ?e then (map_of (games s))(k := None)
                else (map_of (games s))(k \<mapsto> ?g)) k' = Some g'"
      and b: "roles_at g' r' = Some c"
    have "\<exists>g0. map_of (games s) k' = Some g0 \<and> roles_at g0 r' = Some c \<and> (k' = k \<longrightarrow> r' \<noteq> r)"
    proof (cases "k' = k")
      case True
      then have "g' = ?g" using a by (simp split: if_splits)
      then show ?thesis using True b g by (cases "r' = r") auto
    next
      case False
      then show ?thesis using a b by (simp split: if_splits)
    qed
    then obtain g0 where g0: "map_of (games s) k' = Some g0" "roles_at g0 r' = Some c"
      and d: "k' = k \<longrightarrow> r' \<noteq> r" by blast
    then obtain m0 where m0: "clientMeta s c = Some m0" "role m0 = Some r'" "gameId m0 = Some k'"
      using sok unfolding slots_ok_def by blast
    have "c \<noteq> ws" using m0 m r k d by auto
    then show "\<exists>ma. clientMeta ?s c = Some ma \<and> role ma = Some r' \<and> gameId ma = Some k'"
      using m0 by simp
  qed
  show ?thesis using 1 2 3 4 by (simp add: consistent_def)
qed

lemma consistent_Close:
  assumes c: "consistent s" and v: "ws \<in> set (clients s)"
  shows "consistent (fst (step s (Close ws)))"
proof -
  have gok: "games_ok s" and cok: "clients_ok s" and mok: "meta_ok s" and sok: "slots_ok s"
    using c by (simp_all add: consistent_def)
  from v cok obtain m where m: "clientMeta s ws = Some m"
    unfolding clients_ok_def by blast
  show ?thesis
  proof (cases "gameId m")
    case None
    then have rn: "role m = None" using mok m unfolding meta_ok_def by blast
    have free: "roles_at g r \<noteq> Some ws" if "map_of (games s) k = Some g" for k g r
      using sok that m rn unfolding slots_ok_def by fastforce
    from consistent_forget[OF c free]
    show ?thesis using m None by (simp add: onClose_def Let_def)
  next
    case (Some k)
    then obtain r where r: "role m = Some r" using mok m unfolding meta_ok_def by fastforce
    obtain g where g: "map_of (games s) k = Some g" and holds: "roles_at g r = Some ws"
      using mok m r Some unfolding meta_ok_def by blast
    from consistent_leave[OF c m r Some g]
    show ?thesis using m Some r g holds
      by (cases "roles_p1 (roles_set g r None) = None \<and> roles_p2 (roles_set g r None) = None")
         (auto simp add: onClose_def Let_def)
  qed
qed

lemma consistent_step:
  "consistent s \<Longrightarrow> valid_event s e \<Longrightarrow> consistent (fst (step s e))"
proof (cases e)
  case Connection
  then show "consistent s \<Longrightarrow> ?thesis" by (simp add: consistent_onConnection)
next
  case (Message ws raw now)
  then show "consistent s \<Longrightarrow> valid_event s e \<Longrightarrow> ?thesis" by (simp add: consistent_onMessage)
next
  case (Pong ws)
  then show "consistent s \<Longrightarrow> ?thesis" by (simp add: consistent_onPong)
next
  case (Closing ws)
  then show "consistent s \<Longrightarrow> ?thesis" by (simp add: consistent_opened)
next
  case (Close ws)
  then show "consistent s \<Longrightarrow> valid_event s e \<Longrightarrow> ?thesis" using consistent_Close by simp
next
  case Heartbeat
  then show "consistent s \<Longrightarrow> ?thesis" by (simp add: heartbeat_def consistent_heartbeat_loop)
qed

lemma consistent_run:
  "consistent s \<Longrightarrow> valid_run s es \<Longrightarrow> consistent (run s es)"
  by (induction es arbitrary: s) (simp_all add: consistent_step)

lemma consistent_reachable:
  "valid_run init_state es \<Longrightarrow> consistent (run init_state es)"
  by (rule consistent_run[OF consistent_init])

section \<open>Evaluation of the concrete runs\<close>

lemmas handler_defs =
  onConnection_def onMessage_def onPong_def onClose_def heartbeat_def
  handleHello_def handleState_def handleShot_def handleHit_def handleResetMatch_def
  assignClientToGame_def claimRole_def targetGame_def relayDest_def
  resetMatchForGame_def broadcastScoreUpdateForGame_def
  sendScoreUpdate_def getGameForSocket_def safeSend_def
  MAX_PLAYERS_PER_GAME_def pointsToWin_def Let_def hit_kind.simps

lemma two_players_valid: "valid_run init_state two_players"
  by (simp add: two_players_def msg_hello_def init_state_def handler_defs)

lemma two_players_run: "run init_state two_players = paired"
  by (simp add: two_players_def paired_def msg_hello_def init_state_def handler_defs insert_commute)

section \<open>Dispatch and relay\<close>

lemma field_Some_truthy: "field data k = Some v \<Longrightarrow> truthy data"
  by (cases data) simp_all

lemma onMessage_dispatch:
  "field data ''type'' = Some (JStr ''hello'') \<Longrightarrow>
     onMessage s ws (Some data) now = handleHello s ws data"
  "field data ''type'' = Some (JStr ''state'') \<Longrightarrow>
     onMessage s ws (Some data) now = (s, handleState s ws data)"
  "field data ''type'' = Some (JStr ''shot'') \<Longrightarrow>
     onMessage s ws (Some data) now = (s, handleShot s ws data now)"
  "field data ''type'' = Some (JStr ''hit'') \<Longrightarrow>
     onMessage s ws (Some data) now = handleHit s ws data"
  "field data ''type'' = Some (JStr ''reset-match'') \<Longrightarrow>
     onMessage s ws (Some data) now = handleResetMatch s ws"
  by (simp_all add: onMessage_def field_Some_truthy)

lemma other_eq: "(if r = P1 then P2 else P1) = other r"
  by (cases r) simp_all

lemma relayDest_eq:
  assumes "clientMeta s ws = Some m" "role m = Some r" "gameId m = Some k"
    "map_of (games s) k = Some g"
  shows "relayDest s ws =
     (case roles_at g (other r) of
        None \<Rightarrow> None
      | Some dest \<Rightarrow> if dest \<in> opened s then Some (r, dest) else None)"
  using assms by (simp add: relayDest_def other_eq split: option.splits)

lemma relayDest_none:
  "clientMeta s ws = None \<Longrightarrow> relayDest s ws = None"
  "clientMeta s ws = Some m \<Longrightarrow> role m = None \<or> gameId m = None \<Longrightarrow> relayDest s ws = None"
  by (auto simp add: relayDest_def split: option.splits)

lemma stringify_in_range: "in_range v \<Longrightarrow> stringify v = v"
proof (induction v rule: stringify.induct)
  case (7 xs)
  then show ?case by (simp add: list_all_iff map_idI)
next
  case (8 kvs)
  then show ?case by (simp add: list_all_iff map_idI)
qed simp_all

lemma passes_numberOr:
  "stringify d = d \<Longrightarrow> passes data k d (stringify (numberOr d (field data k)))"
  by (cases "(d, field data k)" rule: numberOr.cases)
     (auto simp add: passes_def split: jsnum.splits)

lemma reachable_game:
  assumes "valid_run init_state es" "s = run init_state es"
    "clientMeta s ws = Some m" "role m = Some r" "gameId m = Some k"
  shows "\<exists>g. map_of (games s) k = Some g \<and> roles_at g r = Some ws"
proof -
  have "meta_ok s" using assms(1,2) consistent_reachable by (simp add: consistent_def)
  then show ?thesis using assms(3-5) unfolding meta_ok_def by blast
qed

lemma passes_truthy_orNull: "passes_truthy data k (stringify (orNull (field data k)))"
  by (cases "field data k") (simp_all add: passes_truthy_def)

lemma carries_number_numberOrUndefined:
  "carries_number data k (map_option stringify (numberOrUndefined (field data k)))"
  by (cases "field data k" rule: numberOrUndefined.cases)
     (auto simp add: carries_number_def split: jsnum.splits)

lemma carries_truthy_orUndefined:
  "carries_truthy data k (map_option stringify (orUndefined (field data k)))"
  by (cases "field data k") (simp_all add: carries_truthy_def)

section \<open>The search is first-fit\<close>

lemma occupancy_alt:
  "occupancy g = (if roles_p1 g \<noteq> None then 1 else 0) + (if roles_p2 g \<noteq> None then 1 else 0)"
  by (simp add: occupancy_def)

lemma first_fit_simps:
  "first_fit r [] = None"
  "first_fit r ((k, g) # gs) =
     (if occupancy g < 2 \<and> roles_at g r = None then Some (k, g) else first_fit r gs)"
  by (simp_all add: first_fit_def)

lemma findGame_first_fit: "findGame r gs = first_fit r gs"
proof (induction gs)
  case Nil
  show ?case by (simp add: first_fit_simps)
next
  case (Cons kg gs)
  obtain k g where kg: "kg = (k, g)" by (cases kg)
  show ?case
    unfolding kg using Cons
    by (simp add: first_fit_simps occupancy_alt MAX_PLAYERS_PER_GAME_def Let_def not_le)
qed

lemma update_fresh: "k \<notin> fst ` set al \<Longrightarrow> AList.update k v al = al @ [(k, v)]"
  by (induction al) auto

lemma update_appended:
  "k \<notin> fst ` set al \<Longrightarrow> AList.update k v (al @ [(k, v')]) = al @ [(k, v)]"
  by (induction al) auto

lemma sendScoreUpdate_eq:
  "clientMeta s ws = Some m \<Longrightarrow> gameId m = Some k \<Longrightarrow> map_of (games s) k = Some g \<Longrightarrow>
   sendScoreUpdate s ws =
     (if ws \<in> opened s
      then [Send ws (ScoreUpdate (scores_p1 g) (scores_p2 g) pointsToWin)] else [])"
  by (simp add: sendScoreUpdate_def getGameForSocket_def safeSend_def)

lemma claimRole_eq:
  assumes "targetGame s r = (s1, k, g)" and "game_id g = k"
  shows "claimRole s ws m r =
     (s1\<lparr>games := AList.update k (roles_set g r (Some ws)) (games s1),
         clientMeta := (clientMeta s1)(ws \<mapsto> m\<lparr>role := Some r, gameId := Some k\<rparr>)\<rparr>,
      if ws \<in> opened s1
      then [Send ws (ScoreUpdate (scores_p1 g) (scores_p2 g) pointsToWin)] else [])"
proof -
  let ?s2 = "s1\<lparr>games := AList.update k (roles_set g r (Some ws)) (games s1),
         clientMeta := (clientMeta s1)(ws \<mapsto> m\<lparr>role := Some r, gameId := Some k\<rparr>)\<rparr>"
  have "sendScoreUpdate ?s2 ws =
     (if ws \<in> opened ?s2
      then [Send ws (ScoreUpdate (scores_p1 (roles_set g r (Some ws)))
                                 (scores_p2 (roles_set g r (Some ws))) pointsToWin)] else [])"
    by (rule sendScoreUpdate_eq[where m = "m\<lparr>role := Some r, gameId := Some k\<rparr>" and k = k])
       (simp_all add: update_conv')
  then show ?thesis using assms by (simp add: claimRole_def Let_def)
qed

lemma first_fit_SomeD:
  "first_fit r gs = Some (k, g) \<Longrightarrow> (k, g) \<in> set gs \<and> roles_at g r = None"
  using findGame_SomeD[of r gs k g] by (simp add: findGame_first_fit)

lemma three_players_valid: "valid_run init_state three_players"
  by (simp add: three_players_def two_players_def msg_hello_def msg_plain_def
      init_state_def handler_defs)

lemmas three_players_eval =
  three_players_def two_players_def msg_hello_def msg_plain_def init_state_def handler_defs

section \<open>Scores\<close>

lemma hit_kind_enemy: "(hit_kind data = ''enemy'') = enemy_kind data"
  by (simp add: enemy_kind_def split: option.splits json.splits)

declare hit_kind.simps [simp del]

lemma handleHit_other_kind: "\<not> enemy_kind data \<Longrightarrow> handleHit s ws data = (s, [])"
  by (simp add: handleHit_def hit_kind_enemy split: option.splits)

lemma onMessage_ignored: "ignored_input raw \<Longrightarrow> onMessage s ws raw now = (s, [])"
proof (cases raw)
  case None
  then show ?thesis by (simp add: onMessage_def)
next
  case (Some data)
  assume "ignored_input raw"
  then show ?thesis using Some
    by (auto simp add: onMessage_def recognized_def split: option.splits json.splits)
qed

lemma onMessage_cases:
  obtains (ignored) "onMessage s ws raw now = (s, [])"
  | (hello) data where "raw = Some data" "field data ''type'' = Some (JStr ''hello'')"
      "onMessage s ws raw now = handleHello s ws data"
  | (state) data where "raw = Some data" "field data ''type'' = Some (JStr ''state'')"
      "onMessage s ws raw now = (s, handleState s ws data)"
  | (shot) data where "raw = Some data" "field data ''type'' = Some (JStr ''shot'')"
      "onMessage s ws raw now = (s, handleShot s ws data now)"
  | (hit) data where "raw = Some data" "field data ''type'' = Some (JStr ''hit'')"
      "onMessage s ws raw now = handleHit s ws data"
  | (reset_match) data where "raw = Some data" "field data ''type'' = Some (JStr ''reset-match'')"
      "onMessage s ws raw now = handleResetMatch s ws"
proof (cases "ignored_input raw")
  case True
  show ?thesis by (rule ignored) (rule onMessage_ignored[OF True])
next
  case False
  then obtain data where d: "raw = Some data" by (cases raw) simp_all
  have ni: "\<not> ignored_input (Some data)" using False d by simp
  obtain v where v: "field data ''type'' = Some v"
    using ni by (cases "field data ''type''") simp_all
  obtain ty where ty: "v = JStr ty"
    using ni v by (cases v) simp_all
  have "ty \<in> set recognized" using ni v ty by simp
  then have "ty = ''hello'' \<or> ty = ''state'' \<or> ty = ''shot'' \<or> ty = ''hit'' \<or>
             ty = ''reset-match''"
    unfolding recognized_def by (simp only: list.set insert_iff empty_iff simp_thms)
  then show ?thesis
  proof (elim disjE)
    assume 1: "ty = ''hello''"
    have f: "field data ''type'' = Some (JStr ''hello'')" using v ty 1 by (simp only:)
    have "onMessage s ws raw now = handleHello s ws data"
      unfolding d by (rule onMessage_dispatch(1)[OF f])
    then show ?thesis by (rule hello[OF d f])
  next
    assume 2: "ty = ''state''"
    have f: "field data ''type'' = Some (JStr ''state'')" using v ty 2 by (simp only:)
    have "onMessage s ws raw now = (s, handleState s ws data)"
      unfolding d by (rule onMessage_dispatch(2)[OF f])
    then show ?thesis by (rule state[OF d f])
  next
    assume 3: "ty = ''shot''"
    have f: "field data ''type'' = Some (JStr ''shot'')" using v ty 3 by (simp only:)
    have "onMessage s ws raw now = (s, handleShot s ws data now)"
      unfolding d by (rule onMessage_dispatch(3)[OF f])
    then show ?thesis by (rule shot[OF d f])
  next
    assume 4: "ty = ''hit''"
    have f: "field data ''type'' = Some (JStr ''hit'')" using v ty 4 by (simp only:)
    have "onMessage s ws raw now = handleHit s ws data"
      unfolding d by (rule onMessage_dispatch(4)[OF f])
    then show ?thesis by (rule hit[OF d f])
  next
    assume 5: "ty = ''reset-match''"
    have f: "field data ''type'' = Some (JStr ''reset-match'')" using v ty 5 by (simp only:)
    have "onMessage s ws raw now = handleResetMatch s ws"
      unfolding d by (rule onMessage_dispatch(5)[OF f])
    then show ?thesis by (rule reset_match[OF d f])
  qed
qed

lemma score_of_update:
  "games s' = AList.update k g (games s) \<Longrightarrow>
   score_of s' k' = (if k' = k then Some (scores_p1 g, scores_p2 g) else score_of s k')"
  by (simp add: score_of_def update_conv')

lemma score_of_delete:
  "games s' = AList.delete k (games s) \<Longrightarrow>
   score_of s' k' = (if k' = k then None else score_of s k')"
  by (simp add: score_of_def delete_conv')

lemma games_heartbeat_loop: "games (fst (heartbeat_loop cs s)) = games s"
  by (induction cs arbitrary: s) (auto simp add: split_beta split: option.splits)

lemma kept_games: "games s' = games s \<Longrightarrow> kept s s'"
  by (simp add: kept_def score_of_def)

lemma kept_delete: "games s' = AList.delete k (games s) \<Longrightarrow> kept s s'"
  unfolding kept_def by (simp add: score_of_delete)

lemma kept_update:
  assumes "games s' = AList.update k g' (games s)" and "map_of (games s) k = Some g"
    and "scores_p1 g' = scores_p1 g" and "scores_p2 g' = scores_p2 g"
  shows "kept s s'"
  unfolding kept_def using assms(2-4)
  by (simp add: score_of_update[OF assms(1)]) (simp add: score_of_def)

lemma onClose_games:
  "games (onClose s ws) = games s \<or>
   (\<exists>k. games (onClose s ws) = AList.delete k (games s)) \<or>
   (\<exists>k g g'. games (onClose s ws) = AList.update k g' (games s) \<and>
      map_of (games s) k = Some g \<and> scores_p1 g' = scores_p1 g \<and> scores_p2 g' = scores_p2 g)"
proof (cases "clientMeta s ws")
  case None
  then show ?thesis by (simp add: onClose_def)
next
  case (Some m)
  show ?thesis
  proof (cases "gameId m")
    case None
    then show ?thesis using Some by (simp add: onClose_def)
  next
    case k: (Some k)
    show ?thesis
    proof (cases "map_of (games s) k")
      case None
      then show ?thesis using Some k by (simp add: onClose_def)
    next
      case g: (Some g)
      show ?thesis
      proof (cases "role m")
        case None
        then show ?thesis using Some k g by (simp add: onClose_def)
      next
        case r: (Some r)
        obtain g' where g': "g' = (if roles_at g r = Some ws then roles_set g r None else g)"
          by simp
        have sc: "scores_p1 g' = scores_p1 g \<and> scores_p2 g' = scores_p2 g"
          using g' by simp
        have oc: "onClose s ws =
                    (if roles_p1 g' = None \<and> roles_p2 g' = None
                     then s\<lparr>games := AList.delete k (games s)\<rparr>
                     else s\<lparr>games := AList.update k g' (games s)\<rparr>)
                    \<lparr>clientMeta := (clientMeta s)(ws := None)\<rparr>"
          unfolding g' using Some k g r by (simp add: onClose_def Let_def)
        show ?thesis
        proof (cases "roles_p1 g' = None \<and> roles_p2 g' = None")
          case True
          then have "games (onClose s ws) = AList.delete k (games s)"
            unfolding oc by simp
          then show ?thesis by blast
        next
          case False
          then have "games (onClose s ws) = AList.update k g' (games s)"
            unfolding oc by auto
          then show ?thesis using g sc by blast
        qed
      qed
    qed
  qed
qed

lemma kept_onClose: "kept s (onClose s ws)"
  using onClose_games[of s ws] by (auto intro: kept_games kept_delete kept_update)

lemma kept_claimRole:
  assumes "consistent s"
  shows "kept s (fst (claimRole s ws m r))"
proof -
  have gok: "games_ok s" using assms by (simp add: consistent_def)
  show ?thesis
  proof (cases "first_fit r (games s)")
    case None
    let ?n = "nextGameId s"
    have fresh: "map_of (games s) ?n = None"
      using gok unfolding games_ok_def by (metis less_irrefl not_Some_eq)
    have tg: "targetGame s r = (s\<lparr>nextGameId := ?n + 1,
                 games := AList.update ?n (new_game ?n) (games s)\<rparr>, ?n, new_game ?n)"
      using None by (simp add: targetGame_def findGame_first_fit new_game_def Let_def)
    have g: "games (fst (claimRole s ws m r)) =
             AList.update ?n (roles_set (new_game ?n) r (Some ws)) (games s)"
      unfolding claimRole_eq[OF tg, of ws m, simplified new_game_def, simplified]
      by (simp add: new_game_def)
    show ?thesis
      unfolding kept_def using fresh
      by (simp add: score_of_update[OF g]) (simp add: score_of_def new_game_def)
  next
    case (Some kg)
    obtain k g where kg: "kg = (k, g)" by (cases kg)
    have mem: "(k, g) \<in> set (games s)" using first_fit_SomeD Some kg by blast
    have g: "map_of (games s) k = Some g" using mem gok by (simp add: games_ok_def)
    have id: "game_id g = k" using g gok unfolding games_ok_def by blast
    have tg: "targetGame s r = (s, k, g)"
      using Some kg by (simp add: targetGame_def findGame_first_fit)
    have gs: "games (fst (claimRole s ws m r)) =
              AList.update k (roles_set g r (Some ws)) (games s)"
      unfolding claimRole_eq[OF tg id] by simp
    show ?thesis
      unfolding kept_def using g
      by (simp add: score_of_update[OF gs]) (simp add: score_of_def)
  qed
qed

lemma kept_handleHello:
  assumes "consistent s" and "ws \<in> set (clients s)"
  shows "kept s (fst (handleHello s ws data))"
proof -
  obtain m where m: "clientMeta s ws = Some m"
    using assms unfolding consistent_def clients_ok_def by blast
  show ?thesis
    using m kept_claimRole[OF assms(1)]
    by (simp add: handleHello_def assignClientToGame_def kept_games)
qed

lemma kept_onMessage:
  assumes "consistent s" and "ws \<in> set (clients s)" and "\<not> scoring_input raw"
  shows "kept s (fst (onMessage s ws raw now))"
proof (cases rule: onMessage_cases[of s ws raw now])
  case ignored
  then show ?thesis by (simp add: kept_games)
next
  case (hello data)
  then show ?thesis using kept_handleHello[OF assms(1,2)] by simp
next
  case (state data)
  then show ?thesis by (simp add: kept_games)
next
  case (shot data)
  then show ?thesis by (simp add: kept_games)
next
  case (hit data)
  then have "\<not> enemy_kind data" using assms(3) by simp
  then show ?thesis using hit by (simp add: handleHit_other_kind kept_games)
next
  case (reset_match data)
  then show ?thesis using assms(3) by simp
qed

lemma kept_step:
  assumes "consistent s" and "valid_event s e" and "\<not> scoring_event e"
  shows "kept s (fst (step s e))"
proof (cases e)
  case Connection
  then show ?thesis by (simp add: kept_games onConnection_def Let_def)
next
  case (Message ws raw now)
  then show ?thesis using assms kept_onMessage by simp
next
  case (Pong ws)
  then show ?thesis by (simp add: kept_games onPong_def split: option.splits)
next
  case (Closing ws)
  then show ?thesis by (simp add: kept_games)
next
  case (Close ws)
  have "kept s (onClose s ws)" by (rule kept_onClose)
  then show ?thesis using Close by (simp add: kept_def score_of_def Let_def)
next
  case Heartbeat
  then show ?thesis by (simp add: kept_games heartbeat_def games_heartbeat_loop)
qed


lemma handleHit_enemy:
  assumes "enemy_kind data" and "clientMeta s ws = Some m" and "role m = Some r"
    and "gameId m = Some k" and "map_of (games s) k = Some g"
  shows "games (fst (handleHit s ws data)) =
           AList.update k (if r = P1 then g\<lparr>scores_p1 := scores_p1 g + 1\<rparr>
                           else g\<lparr>scores_p2 := scores_p2 g + 1\<rparr>) (games s)"
  using assms by (simp add: handleHit_def hit_kind_enemy Let_def)

lemma handleResetMatch_games:
  assumes "clientMeta s ws = Some m" and "gameId m = Some k" and "map_of (games s) k = Some g"
  shows "games (fst (handleResetMatch s ws)) =
           AList.update k (g\<lparr>scores_p1 := 0, scores_p2 := 0\<rparr>) (games s)"
  using assms by (simp add: handleResetMatch_def resetMatchForGame_def Let_def)

lemma handleHit_dom:
  "score_of s k = None \<Longrightarrow> score_of (fst (handleHit s ws data)) k = None"
  by (auto simp add: handleHit_def Let_def score_of_def update_conv' split: option.splits)

lemma handleResetMatch_dom:
  "score_of s k = None \<Longrightarrow> score_of (fst (handleResetMatch s ws)) k = None"
  by (auto simp add: handleResetMatch_def resetMatchForGame_def Let_def score_of_def
        update_conv' split: option.splits)

lemma onMessage_dom:
  assumes "scoring_input raw" and "score_of s k = None"
  shows "score_of (fst (onMessage s ws raw now)) k = None"
proof -
  obtain data where d: "raw = Some data" using assms(1) by (cases raw) simp_all
  from assms(1) d consider "field data ''type'' = Some (JStr ''hit'')"
    | "field data ''type'' = Some (JStr ''reset-match'')" by auto
  then show ?thesis
  proof cases
    case 1
    then show ?thesis using d assms(2) by (simp add: onMessage_dispatch handleHit_dom)
  next
    case 2
    then show ?thesis using d assms(2) by (simp add: onMessage_dispatch handleResetMatch_dom)
  qed
qed

section \<open>The heartbeat\<close>

lemma hb_fields:
  "clients (fst (heartbeat_loop cs s)) = clients s"
  "nextConn (fst (heartbeat_loop cs s)) = nextConn s"
  by (induction cs arbitrary: s) (auto simp add: split_beta split: option.splits)

lemma hb_opened: "opened (fst (heartbeat_loop cs s)) \<subseteq> opened s"
proof (induction cs arbitrary: s)
  case Nil
  show ?case by simp
next
  case (Cons ws rest)
  show ?case
  proof (cases "clientMeta s ws")
    case None
    then show ?thesis using Cons[of s] by simp
  next
    case (Some m)
    show ?thesis
    proof (cases "isAlive m")
      case True
      then show ?thesis
        using Some Cons[of "s\<lparr>clientMeta := (clientMeta s)(ws \<mapsto> m\<lparr>isAlive := False\<rparr>)\<rparr>"]
        by (simp add: split_beta)
    next
      case False
      then show ?thesis
        using Some Cons[of "s\<lparr>opened := opened s - {ws}\<rparr>"]
        by (auto simp add: split_beta)
    qed
  qed
qed

lemma hb_frame:
  "c \<notin> set cs \<Longrightarrow>
   clientMeta (fst (heartbeat_loop cs s)) c = clientMeta s c \<and>
   (c \<in> opened (fst (heartbeat_loop cs s)) \<longleftrightarrow> c \<in> opened s) \<and>
   Ping c \<notin> set (snd (heartbeat_loop cs s)) \<and>
   Terminate c \<notin> set (snd (heartbeat_loop cs s))"
proof (induction cs arbitrary: s)
  case Nil
  show ?case by simp
next
  case (Cons ws rest)
  then have ne: "c \<noteq> ws" and nr: "c \<notin> set rest" by simp_all
  show ?case
  proof (cases "clientMeta s ws")
    case None
    then show ?thesis using Cons.IH[OF nr, of s] by simp
  next
    case (Some m)
    show ?thesis
    proof (cases "isAlive m")
      case True
      then show ?thesis
        using Some ne
          Cons.IH[OF nr, of "s\<lparr>clientMeta := (clientMeta s)(ws \<mapsto> m\<lparr>isAlive := False\<rparr>)\<rparr>"]
        by (simp add: split_beta)
    next
      case False
      then show ?thesis
        using Some ne Cons.IH[OF nr, of "s\<lparr>opened := opened s - {ws}\<rparr>"]
        by (simp add: split_beta)
    qed
  qed
qed

lemma hb_dead:
  "distinct cs \<Longrightarrow> c \<in> set cs \<Longrightarrow> clientMeta s c = Some m \<Longrightarrow> \<not> isAlive m \<Longrightarrow>
   count_list (snd (heartbeat_loop cs s)) (Terminate c) = 1 \<and>
   Ping c \<notin> set (snd (heartbeat_loop cs s)) \<and>
   c \<notin> opened (fst (heartbeat_loop cs s)) \<and>
   clientMeta (fst (heartbeat_loop cs s)) c = Some m"
proof (induction cs arbitrary: s)
  case Nil
  then show ?case by simp
next
  case (Cons ws rest)
  show ?case
  proof (cases "ws = c")
    case True
    then have nr: "c \<notin> set rest" using Cons.prems(1) by simp
    note fr = hb_frame[OF nr, of "s\<lparr>opened := opened s - {c}\<rparr>"]
    have "count_list (snd (heartbeat_loop rest (s\<lparr>opened := opened s - {c}\<rparr>))) (Terminate c) = 0"
      using fr by (simp add: count_list_0_iff)
    then show ?thesis using True Cons.prems(3,4) fr by (simp add: split_beta)
  next
    case False
    then have ir: "c \<in> set rest" and dr: "distinct rest" using Cons.prems(1,2) by auto
    show ?thesis
    proof (cases "clientMeta s ws")
      case None
      then show ?thesis using Cons.IH[OF dr ir Cons.prems(3,4)] by simp
    next
      case (Some mw)
      show ?thesis
      proof (cases "isAlive mw")
        case True
        let ?s1 = "s\<lparr>clientMeta := (clientMeta s)(ws \<mapsto> mw\<lparr>isAlive := False\<rparr>)\<rparr>"
        have "clientMeta ?s1 c = Some m" using False Cons.prems(3) by simp
        from Cons.IH[OF dr ir this Cons.prems(4)] show ?thesis
          using Some True False by (simp add: split_beta)
      next
        case dead: False
        let ?s1 = "s\<lparr>opened := opened s - {ws}\<rparr>"
        have "clientMeta ?s1 c = Some m" using Cons.prems(3) by simp
        from Cons.IH[OF dr ir this Cons.prems(4)] show ?thesis
          using Some dead False by (simp add: split_beta)
      qed
    qed
  qed
qed

lemma hb_alive:
  "distinct cs \<Longrightarrow> c \<in> set cs \<Longrightarrow> clientMeta s c = Some m \<Longrightarrow> isAlive m \<Longrightarrow>
   count_list (snd (heartbeat_loop cs s)) (Ping c) = 1 \<and>
   Terminate c \<notin> set (snd (heartbeat_loop cs s)) \<and>
   clientMeta (fst (heartbeat_loop cs s)) c = Some (m\<lparr>isAlive := False\<rparr>)"
proof (induction cs arbitrary: s)
  case Nil
  then show ?case by simp
next
  case (Cons ws rest)
  show ?case
  proof (cases "ws = c")
    case True
    then have nr: "c \<notin> set rest" using Cons.prems(1) by simp
    note fr = hb_frame[OF nr, of "s\<lparr>clientMeta := (clientMeta s)(c \<mapsto> m\<lparr>isAlive := False\<rparr>)\<rparr>"]
    have "count_list (snd (heartbeat_loop rest
             (s\<lparr>clientMeta := (clientMeta s)(c \<mapsto> m\<lparr>isAlive := False\<rparr>)\<rparr>))) (Ping c) = 0"
      using fr by (simp add: count_list_0_iff)
    then show ?thesis using True Cons.prems(3,4) fr by (simp add: split_beta)
  next
    case False
    then have ir: "c \<in> set rest" and dr: "distinct rest" using Cons.prems(1,2) by auto
    show ?thesis
    proof (cases "clientMeta s ws")
      case None
      then show ?thesis using Cons.IH[OF dr ir Cons.prems(3,4)] by simp
    next
      case (Some mw)
      show ?thesis
      proof (cases "isAlive mw")
        case True
        let ?s1 = "s\<lparr>clientMeta := (clientMeta s)(ws \<mapsto> mw\<lparr>isAlive := False\<rparr>)\<rparr>"
        have "clientMeta ?s1 c = Some m" using False Cons.prems(3) by simp
        from Cons.IH[OF dr ir this Cons.prems(4)] show ?thesis
          using Some True False by (simp add: split_beta)
      next
        case dead: False
        let ?s1 = "s\<lparr>opened := opened s - {ws}\<rparr>"
        have "clientMeta ?s1 c = Some m" using Cons.prems(3) by simp
        from Cons.IH[OF dr ir this Cons.prems(4)] show ?thesis
          using Some dead False by (simp add: split_beta)
      qed
    qed
  qed
qed


lemma claimRole_fields:
  "clients (fst (claimRole s ws m r)) = clients s"
  "nextConn (fst (claimRole s ws m r)) = nextConn s"
  "opened (fst (claimRole s ws m r)) = opened s"
  "clientMeta (fst (claimRole s ws m r)) c =
     (if c = ws then Some (m\<lparr>role := Some r,
                                gameId := gameId (the (clientMeta (fst (claimRole s ws m r)) ws))\<rparr>)
      else clientMeta s c)"
  by (simp_all add: claimRole_def targetGame_def Let_def split: option.splits prod.splits)

lemma handleHello_fields:
  assumes "clientMeta s ws = Some mw"
  shows "clients (fst (handleHello s ws data)) = clients s"
    and "nextConn (fst (handleHello s ws data)) = nextConn s"
    and "opened (fst (handleHello s ws data)) = opened s"
    and "clientMeta s c = Some m \<Longrightarrow>
         \<exists>m'. clientMeta (fst (handleHello s ws data)) c = Some m' \<and> isAlive m' = isAlive m"
  using assms claimRole_fields(4)[of s ws mw _ c]
  by (auto simp add: handleHello_def assignClientToGame_def claimRole_fields(1-3))

lemma handleHit_fields:
  "clients (fst (handleHit s ws data)) = clients s"
  "nextConn (fst (handleHit s ws data)) = nextConn s"
  "opened (fst (handleHit s ws data)) = opened s"
  "clientMeta (fst (handleHit s ws data)) = clientMeta s"
  by (simp_all add: handleHit_def Let_def split: option.splits)

lemma handleResetMatch_fields:
  "clients (fst (handleResetMatch s ws)) = clients s"
  "nextConn (fst (handleResetMatch s ws)) = nextConn s"
  "opened (fst (handleResetMatch s ws)) = opened s"
  "clientMeta (fst (handleResetMatch s ws)) = clientMeta s"
  by (simp_all add: handleResetMatch_def resetMatchForGame_def Let_def split: option.splits)

lemma onMessage_fields:
  assumes "clientMeta s ws = Some mw"
  shows "clients (fst (onMessage s ws raw now)) = clients s \<and>
         nextConn (fst (onMessage s ws raw now)) = nextConn s \<and>
         opened (fst (onMessage s ws raw now)) = opened s \<and>
         (\<forall>c m. clientMeta s c = Some m \<longrightarrow>
            (\<exists>m'. clientMeta (fst (onMessage s ws raw now)) c = Some m' \<and>
                  isAlive m' = isAlive m))"
proof (cases rule: onMessage_cases[of s ws raw now])
  case ignored
  then show ?thesis by simp
next
  case (hello data)
  then show ?thesis using handleHello_fields[OF assms] by simp
next
  case (state data)
  then show ?thesis by simp
next
  case (shot data)
  then show ?thesis by simp
next
  case (hit data)
  then show ?thesis by (simp add: handleHit_fields)
next
  case (reset_match data)
  then show ?thesis by (simp add: handleResetMatch_fields)
qed

lemma onClose_fields:
  "clients (onClose s ws) = clients s"
  "nextConn (onClose s ws) = nextConn s"
  "opened (onClose s ws) = opened s"
  "clientMeta (onClose s ws) c = (if c = ws then None else clientMeta s c)"
  by (simp_all add: onClose_def Let_def split: option.splits)

lemma registered:
  "consistent s \<Longrightarrow> ws \<in> set (clients s) \<Longrightarrow> \<exists>m. clientMeta s ws = Some m"
  unfolding consistent_def clients_ok_def by blast

lemma overdue_heartbeat:
  assumes c: "consistent s" and n: "c < nextConn s"
  shows "overdue c (fst (heartbeat s))"
proof -
  have cok: "clients_ok s" using c by (simp add: consistent_def)
  have "\<exists>m. clientMeta (fst (heartbeat s)) c = Some m \<and> \<not> isAlive m"
    if o: "c \<in> opened (fst (heartbeat s))"
  proof -
    have "c \<in> opened s" using o hb_opened[of "clients s" s] by (auto simp add: heartbeat_def)
    then have mem: "c \<in> set (clients s)" using cok unfolding clients_ok_def by blast
    then obtain m where m: "clientMeta s c = Some m" using registered[OF c] by blast
    have d: "distinct (clients s)" using cok by (simp add: clients_ok_def)
    show ?thesis
    proof (cases "isAlive m")
      case True
      from hb_alive[OF d mem m True] show ?thesis by (simp add: heartbeat_def)
    next
      case False
      from hb_dead[OF d mem m False] o show ?thesis by (simp add: heartbeat_def)
    qed
  qed
  then show ?thesis using n by (simp add: overdue_def heartbeat_def hb_fields)
qed

lemma overdue_closed:
  assumes c: "consistent s" and o: "overdue c s"
  shows "c \<notin> opened (fst (heartbeat s))"
proof
  assume a: "c \<in> opened (fst (heartbeat s))"
  have cok: "clients_ok s" using c by (simp add: consistent_def)
  have op: "c \<in> opened s" using a hb_opened[of "clients s" s] by (auto simp add: heartbeat_def)
  then have mem: "c \<in> set (clients s)" using cok unfolding clients_ok_def by blast
  from o op obtain m where m: "clientMeta s c = Some m" "\<not> isAlive m"
    by (auto simp add: overdue_def)
  have d: "distinct (clients s)" using cok by (simp add: clients_ok_def)
  from hb_dead[OF d mem m] a show False by (simp add: heartbeat_def)
qed

lemma overdue_step:
  assumes c: "consistent s" and v: "valid_event s e" and np: "e \<noteq> Pong c"
    and o: "overdue c s"
  shows "overdue c (fst (step s e))"
proof (cases e)
  case Connection
  then show ?thesis using o by (auto simp add: overdue_def onConnection_def Let_def)
next
  case (Message ws raw now)
  then have "ws \<in> set (clients s)" using v by simp
  then obtain mw where mw: "clientMeta s ws = Some mw" using registered[OF c] by blast
  from onMessage_fields[OF mw, of raw now] show ?thesis
    using o Message unfolding overdue_def by (simp; metis)
next
  case (Pong ws)
  then have "ws \<noteq> c" using np by simp
  then show ?thesis using o Pong
    by (auto simp add: overdue_def onPong_def split: option.splits)
next
  case (Closing ws)
  then show ?thesis using o by (auto simp add: overdue_def)
next
  case (Close ws)
  then show ?thesis using o
    by (auto simp add: overdue_def Let_def onClose_fields)
next
  case Heartbeat
  have "c < nextConn s" using o by (simp add: overdue_def)
  from overdue_heartbeat[OF c this] show ?thesis using Heartbeat by simp
qed

lemma overdue_run:
  "consistent s \<Longrightarrow> valid_run s es \<Longrightarrow> Pong c \<notin> set es \<Longrightarrow> overdue c s \<Longrightarrow>
   overdue c (run s es)"
proof (induction es arbitrary: s)
  case Nil
  then show ?case by simp
next
  case (Cons e es)
  have v: "valid_event s e" and vr: "valid_run (fst (step s e)) es" using Cons.prems(2) by simp_all
  have np: "e \<noteq> Pong c" and nr: "Pong c \<notin> set es" using Cons.prems(3) by auto
  have c': "consistent (fst (step s e))" using Cons.prems(1) v by (rule consistent_step)
  have o': "overdue c (fst (step s e))" using Cons.prems(1) v np Cons.prems(4) by (rule overdue_step)
  show ?case using Cons.IH[OF c' vr nr o'] by simp
qed

lemma step_opened:
  assumes "consistent s" and "valid_event s e" and "c < nextConn s" and "c \<notin> opened s"
  shows "c < nextConn (fst (step s e)) \<and> c \<notin> opened (fst (step s e))"
proof (cases e)
  case Connection
  then show ?thesis using assms(3,4) by (auto simp add: onConnection_def Let_def)
next
  case (Message ws raw now)
  then have "ws \<in> set (clients s)" using assms(2) by simp
  then obtain mw where mw: "clientMeta s ws = Some mw" using registered[OF assms(1)] by blast
  from onMessage_fields[OF mw, of raw now] show ?thesis using assms(3,4) Message by simp
next
  case (Pong ws)
  then show ?thesis using assms(3,4) by (auto simp add: onPong_def split: option.splits)
next
  case (Closing ws)
  then show ?thesis using assms(3,4) by auto
next
  case (Close ws)
  then show ?thesis using assms(3,4) by (auto simp add: Let_def onClose_fields)
next
  case Heartbeat
  then show ?thesis using assms(3,4) hb_opened[of "clients s" s]
    by (auto simp add: heartbeat_def hb_fields)
qed

lemma closed_run:
  "consistent s \<Longrightarrow> valid_run s es \<Longrightarrow> c < nextConn s \<Longrightarrow> c \<notin> opened s \<Longrightarrow>
   c \<notin> opened (run s es)"
proof (induction es arbitrary: s)
  case Nil
  then show ?case by simp
next
  case (Cons e es)
  have v: "valid_event s e" and vr: "valid_run (fst (step s e)) es" using Cons.prems(2) by simp_all
  have c': "consistent (fst (step s e))" using Cons.prems(1) v by (rule consistent_step)
  from step_opened[OF Cons.prems(1) v Cons.prems(3,4)]
  show ?case using Cons.IH[OF c' vr] by simp
qed

lemma run_append: "run s (xs @ ys) = run (run s xs) ys"
  by (induction xs arbitrary: s) simp_all

lemma valid_run_append:
  "valid_run s (xs @ ys) \<longleftrightarrow> valid_run s xs \<and> valid_run (run s xs) ys"
  by (induction xs arbitrary: s) simp_all

lemma two_ticks:
  assumes c: "consistent s" and n: "c < nextConn s"
    and v: "valid_run s (Heartbeat # mid @ Heartbeat # later)" and np: "Pong c \<notin> set mid"
  shows "c \<notin> opened (run s (Heartbeat # mid @ Heartbeat # later))"
proof -
  let ?s1 = "fst (heartbeat s)"
  let ?s2 = "run ?s1 mid"
  let ?s3 = "fst (heartbeat ?s2)"
  have v1: "valid_run ?s1 mid" and v3: "valid_run ?s3 later"
    using v by (simp_all add: valid_run_append)
  have c1: "consistent ?s1" using consistent_step[OF c, of Heartbeat] by simp
  have o1: "overdue c ?s1" using c n by (rule overdue_heartbeat)
  have c2: "consistent ?s2" using c1 v1 by (rule consistent_run)
  have o2: "overdue c ?s2" using c1 v1 np o1 by (rule overdue_run)
  have c3: "consistent ?s3" using consistent_step[OF c2, of Heartbeat] by simp
  have cl: "c \<notin> opened ?s3" using c2 o2 by (rule overdue_closed)
  have n3: "c < nextConn ?s3" using o2 by (simp add: overdue_def heartbeat_def hb_fields)
  have "c \<notin> opened (run ?s3 later)" using c3 v3 n3 cl by (rule closed_run)
  then show ?thesis by (simp add: run_append)
qed

lemma gone_step:
  assumes "gone c s" and "valid_event s e"
  shows "gone c (fst (step s e)) \<and> e \<noteq> Close c"
proof (cases e)
  case Connection
  then show ?thesis using assms(1) by (auto simp add: gone_def onConnection_def Let_def)
next
  case (Message ws raw now)
  show ?thesis
  proof (cases rule: onMessage_cases[of s ws raw now])
    case ignored
    then show ?thesis using assms(1) Message by simp
  next
    case (hello data)
    have "clients (fst (handleHello s ws data)) = clients s \<and>
          nextConn (fst (handleHello s ws data)) = nextConn s"
      by (simp add: handleHello_def assignClientToGame_def claimRole_fields Let_def
          split: option.splits)
    then show ?thesis using assms(1) Message hello by (simp add: gone_def)
  next
    case (state data)
    then show ?thesis using assms(1) Message by simp
  next
    case (shot data)
    then show ?thesis using assms(1) Message by simp
  next
    case (hit data)
    then show ?thesis using assms(1) Message by (simp add: gone_def handleHit_fields)
  next
    case (reset_match data)
    then show ?thesis using assms(1) Message by (simp add: gone_def handleResetMatch_fields)
  qed
next
  case (Pong ws)
  then show ?thesis using assms(1) by (auto simp add: gone_def onPong_def split: option.splits)
next
  case (Closing ws)
  then show ?thesis using assms(1) by (auto simp add: gone_def)
next
  case (Close ws)
  then show ?thesis using assms by (auto simp add: gone_def Let_def onClose_fields)
next
  case Heartbeat
  then show ?thesis using assms(1) by (auto simp add: gone_def heartbeat_def hb_fields)
qed

lemma gone_run: "gone c s \<Longrightarrow> valid_run s es \<Longrightarrow> count_list es (Close c) = 0"
proof (induction es arbitrary: s)
  case Nil
  show ?case by simp
next
  case (Cons e es)
  have v: "valid_event s e" and vr: "valid_run (fst (step s e)) es" using Cons.prems(2) by simp_all
  from gone_step[OF Cons.prems(1) v] Cons.IH[OF _ vr] show ?case by simp
qed

lemma close_once:
  "consistent s \<Longrightarrow> valid_run s es \<Longrightarrow> count_list es (Close c) \<le> 1"
proof (induction es arbitrary: s)
  case Nil
  show ?case by simp
next
  case (Cons e es)
  have v: "valid_event s e" and vr: "valid_run (fst (step s e)) es" using Cons.prems(2) by simp_all
  have c': "consistent (fst (step s e))" using Cons.prems(1) v by (rule consistent_step)
  show ?case
  proof (cases "e = Close c")
    case True
    have "c \<in> set (clients s)" using v True by simp
    then have "c < nextConn s" using Cons.prems(1) unfolding consistent_def clients_ok_def by blast
    then have "gone c (fst (step s e))"
      using True by (simp add: gone_def Let_def onClose_fields)
    from gone_run[OF this vr] show ?thesis using True by simp
  next
    case False
    then show ?thesis using Cons.IH[OF c' vr] by simp
  qed
qed

section \<open>The store lists the sessions in creation order\<close>

lemma handleHit_shape:
  "games (fst (handleHit s ws data)) = games s \<or>
   (\<exists>k g v. map_of (games s) k = Some g \<and>
      games (fst (handleHit s ws data)) = AList.update k v (games s))"
  by (auto simp add: handleHit_def Let_def split: option.splits)

lemma handleResetMatch_shape:
  "games (fst (handleResetMatch s ws)) = games s \<or>
   (\<exists>k g v. map_of (games s) k = Some g \<and>
      games (fst (handleResetMatch s ws)) = AList.update k v (games s))"
  by (auto simp add: handleResetMatch_def resetMatchForGame_def Let_def split: option.splits)

lemma claimRole_shape:
  assumes "consistent s"
  shows "(\<exists>k g v. map_of (games s) k = Some g \<and>
            games (fst (claimRole s ws m r)) = AList.update k v (games s)) \<or>
         (\<exists>v. games (fst (claimRole s ws m r)) = AList.update (nextGameId s) v (games s))"
proof -
  have gok: "games_ok s" using assms by (simp add: consistent_def)
  show ?thesis
  proof (cases "first_fit r (games s)")
    case None
    let ?n = "nextGameId s"
    have tg: "targetGame s r = (s\<lparr>nextGameId := ?n + 1,
                 games := AList.update ?n (new_game ?n) (games s)\<rparr>, ?n, new_game ?n)"
      using None by (simp add: targetGame_def findGame_first_fit new_game_def Let_def)
    have "games (fst (claimRole s ws m r)) =
             AList.update ?n (roles_set (new_game ?n) r (Some ws)) (games s)"
      unfolding claimRole_eq[OF tg, of ws m, simplified new_game_def, simplified]
      by (simp add: new_game_def)
    then show ?thesis by blast
  next
    case (Some kg)
    obtain k g where kg: "kg = (k, g)" by (cases kg)
    have mem: "(k, g) \<in> set (games s)" using first_fit_SomeD Some kg by blast
    have g: "map_of (games s) k = Some g" using mem gok by (simp add: games_ok_def)
    have id: "game_id g = k" using g gok unfolding games_ok_def by blast
    have tg: "targetGame s r = (s, k, g)"
      using Some kg by (simp add: targetGame_def findGame_first_fit)
    have "games (fst (claimRole s ws m r)) =
              AList.update k (roles_set g r (Some ws)) (games s)"
      unfolding claimRole_eq[OF tg id] by simp
    then show ?thesis using g by blast
  qed
qed

lemma creation_order_update_present:
  "map_of al k = Some g \<Longrightarrow> map fst (AList.update k v al) = map fst al"
  by (simp add: update_keys) (metis domI dom_map_of_conv_image_fst)

lemma creation_order_step:
  assumes c: "consistent s" and o: "creation_order s" and v: "valid_event s e"
  shows "creation_order (fst (step s e))"
proof -
  have gok: "games_ok s" using c by (simp add: consistent_def)
  have below: "\<forall>k \<in> set (map fst (games s)). k < nextGameId s"
  proof
    fix k assume "k \<in> set (map fst (games s))"
    then obtain g where "(k, g) \<in> set (games s)" by auto
    then have "map_of (games s) k = Some g" using gok by (simp add: games_ok_def)
    then show "k < nextGameId s" using gok unfolding games_ok_def by blast
  qed
  have same: "creation_order s'" if "games s' = games s" for s'
    using that o by (simp add: creation_order_def)
  have del: "creation_order s'" if "games s' = AList.delete k (games s)" for s' k
    using that o
    by (simp add: creation_order_def delete_keys removeAll_filter_not_eq sorted_wrt_filter)
  have upd: "creation_order s'"
    if "games s' = AList.update k v (games s)" "map_of (games s) k = Some g" for s' k v g
    using that o by (simp add: creation_order_def creation_order_update_present)
  have new: "creation_order s'"
    if "games s' = AList.update (nextGameId s) v (games s)" for s' v
    using that o below
    by (auto simp add: creation_order_def update_keys sorted_wrt_append)
  show ?thesis
  proof (cases e)
    case Connection
    then show ?thesis by (simp add: same onConnection_def Let_def)
  next
    case (Message ws raw now)
    then have "ws \<in> set (clients s)" using v by simp
    then obtain mw where mw: "clientMeta s ws = Some mw" using registered[OF c] by blast
    show ?thesis
    proof (cases rule: onMessage_cases[of s ws raw now])
      case ignored
      then show ?thesis using Message by (simp add: same)
    next
      case (hello data)
      have "creation_order (fst (assignClientToGame s ws d))" for d
      proof (cases "gameId mw \<noteq> None \<and> role mw \<noteq> None")
        case True
        then show ?thesis using mw by (simp add: assignClientToGame_def same)
      next
        case False
        then have eq: "assignClientToGame s ws d = claimRole s ws mw (if d = P2 then P2 else P1)"
          using mw by (auto simp add: assignClientToGame_def)
        show ?thesis
          unfolding eq using claimRole_shape[OF c, of ws mw "if d = P2 then P2 else P1"]
          by (auto intro: upd new)
      qed
      then show ?thesis using Message hello by (simp add: handleHello_def)
    next
      case (state data)
      then show ?thesis using Message by (simp add: same)
    next
      case (shot data)
      then show ?thesis using Message by (simp add: same)
    next
      case (hit data)
      then show ?thesis using Message handleHit_shape[of s ws data]
        by (auto intro: same upd)
    next
      case (reset_match data)
      then show ?thesis using Message handleResetMatch_shape[of s ws]
        by (auto intro: same upd)
    qed
  next
    case (Pong ws)
    then show ?thesis by (simp add: same onPong_def split: option.splits)
  next
    case (Closing ws)
    then show ?thesis by (simp add: same)
  next
    case (Close ws)
    have "creation_order (onClose s ws)"
      using onClose_games[of s ws] by (auto intro: same del upd)
    then show ?thesis using Close by (simp add: creation_order_def Let_def)
  next
    case Heartbeat
    then show ?thesis by (simp add: same heartbeat_def games_heartbeat_loop)
  qed
qed

lemma creation_order_run:
  "consistent s \<Longrightarrow> creation_order s \<Longrightarrow> valid_run s es \<Longrightarrow> creation_order (run s es)"
proof (induction es arbitrary: s)
  case Nil
  then show ?case by simp
next
  case (Cons e es)
  have v: "valid_event s e" and vr: "valid_run (fst (step s e)) es" using Cons.prems(3) by simp_all
  have c': "consistent (fst (step s e))" using Cons.prems(1) v by (rule consistent_step)
  have o': "creation_order (fst (step s e))" using Cons.prems(1,2) v by (rule creation_order_step)
  show ?case using Cons.IH[OF c' o' vr] by simp
qed

lemma creation_order_reachable:
  "valid_run init_state es \<Longrightarrow> creation_order (run init_state es)"
  by (rule creation_order_run[OF consistent_init])
     (simp_all add: creation_order_def init_state_def)

lemma find_sorted_least:
  "sorted_wrt (<) (map fst al) \<Longrightarrow> List.find P al = Some (k, g) \<Longrightarrow>
   (k', g') \<in> set al \<Longrightarrow> P (k', g') \<Longrightarrow> k \<le> (k' :: nat)"
proof (induction al)
  case Nil
  then show ?case by simp
next
  case (Cons x al)
  show ?case
  proof (cases "P x")
    case True
    then have "x = (k, g)" using Cons.prems(2) by simp
    then show ?thesis using Cons.prems(1,3) by force
  next
    case False
    then have "List.find P al = Some (k, g)" "(k', g') \<in> set al"
      using Cons.prems(2,3,4) by auto
    then show ?thesis using Cons.IH Cons.prems(1,4) by simp
  qed
qed

section \<open>One tick of the monitor\<close>

lemma terminated_set: "c \<in> set (terminated effs) \<longleftrightarrow> Terminate c \<in> set effs"
  by (induction effs rule: terminated.induct) auto

lemma terminated_count: "count_list (terminated effs) c = count_list effs (Terminate c)"
  by (induction effs rule: terminated.induct) auto

lemma count_closes: "count_list (map Close ds) (Close c) = count_list ds c"
  by (induction ds) auto

lemma hb_terminated:
  "set (terminated (snd (heartbeat_loop cs s))) \<subseteq> set cs \<and>
   (distinct cs \<longrightarrow> distinct (terminated (snd (heartbeat_loop cs s))))"
proof (induction cs arbitrary: s)
  case Nil
  show ?case by simp
next
  case (Cons ws rest)
  show ?case
  proof (cases "clientMeta s ws")
    case None
    then show ?thesis using Cons[of s] by auto
  next
    case (Some m)
    show ?thesis
    proof (cases "isAlive m")
      case True
      then show ?thesis
        using Some Cons[of "s\<lparr>clientMeta := (clientMeta s)(ws \<mapsto> m\<lparr>isAlive := False\<rparr>)\<rparr>"]
        by (auto simp add: split_beta)
    next
      case False
      then show ?thesis
        using Some Cons[of "s\<lparr>opened := opened s - {ws}\<rparr>"]
        by (auto simp add: split_beta)
    qed
  qed
qed

lemma closes_valid:
  "distinct ds \<Longrightarrow> set ds \<subseteq> set (clients s) \<Longrightarrow> valid_run s (map Close ds)"
proof (induction ds arbitrary: s)
  case Nil
  show ?case by simp
next
  case (Cons d ds)
  have "set ds \<subseteq> set (clients (fst (step s (Close d))))"
    using Cons.prems by (auto simp add: Let_def onClose_fields)
  then show ?case using Cons.IH[of "fst (step s (Close d))"] Cons.prems by simp
qed

lemma closes_fields:
  "clients (run s (map Close ds)) = filter (\<lambda>x. x \<notin> set ds) (clients s) \<and>
   nextConn (run s (map Close ds)) = nextConn s \<and>
   opened (run s (map Close ds)) = opened s - set ds \<and>
   clientMeta (run s (map Close ds)) c = (if c \<in> set ds then None else clientMeta s c)"
proof (induction ds arbitrary: s)
  case Nil
  show ?case by simp
next
  case (Cons d ds)
  have f: "filter (\<lambda>x. x \<notin> set ds) (removeAll d xs) =
           filter (\<lambda>x. x \<noteq> d \<and> x \<notin> set ds) xs" for xs :: "conn list"
    by (induction xs) auto
  show ?case
    using Cons.IH[of "fst (step s (Close d))"]
    by (auto simp add: Let_def onClose_fields f)
qed

lemma tick_valid:
  assumes "consistent s"
  shows "valid_run s (tick_events s)"
proof -
  have d: "distinct (clients s)" using assms by (simp add: consistent_def clients_ok_def)
  have "valid_run (fst (heartbeat s)) (map Close (terminated (snd (heartbeat s))))"
    using hb_terminated[of "clients s" s] d
    by (intro closes_valid) (simp_all add: heartbeat_def hb_fields)
  then show ?thesis by (simp add: tick_events_def)
qed

lemma tick_fields:
  "clients (tick s) =
     filter (\<lambda>x. x \<notin> set (terminated (snd (heartbeat s)))) (clients s)"
  "nextConn (tick s) = nextConn s"
  "clientMeta (tick s) c =
     (if c \<in> set (terminated (snd (heartbeat s))) then None
      else clientMeta (fst (heartbeat s)) c)"
  using closes_fields[of "fst (heartbeat s)" "terminated (snd (heartbeat s))" c]
  by (simp_all add: tick_def tick_events_def heartbeat_def hb_fields)

lemma tick_consistent: "consistent s \<Longrightarrow> consistent (tick s)"
  unfolding tick_def by (rule consistent_run) (simp_all add: tick_valid)

lemma tick_dead:
  assumes c: "consistent s" and mem: "c \<in> set (clients s)"
    and m: "clientMeta s c = Some m" and dead: "\<not> isAlive m"
  shows "count_list (tick_events s) (Close c) = 1"
    and "clientMeta (tick s) c = None" and "gone c (tick s)"
proof -
  have cok: "clients_ok s" using c by (simp add: consistent_def)
  have d: "distinct (clients s)" using cok by (simp add: clients_ok_def)
  have n: "c < nextConn s" using cok mem unfolding clients_ok_def by blast
  have t: "count_list (snd (heartbeat s)) (Terminate c) = 1"
    using hb_dead[OF d mem m dead] by (simp add: heartbeat_def)
  then have "Terminate c \<in> set (snd (heartbeat s))"
    by (metis count_list_0_iff zero_neq_one)
  then have i: "c \<in> set (terminated (snd (heartbeat s)))" by (simp add: terminated_set)
  show "count_list (tick_events s) (Close c) = 1"
    using t by (simp add: tick_events_def count_closes terminated_count)
  show "clientMeta (tick s) c = None" using i by (simp add: tick_fields)
  show "gone c (tick s)" using i n by (simp add: gone_def tick_fields)
qed

lemma tick_alive:
  assumes c: "consistent s" and mem: "c \<in> set (clients s)"
    and m: "clientMeta s c = Some m" and alive: "isAlive m"
  shows "count_list (tick_events s) (Close c) = 0"
    and "c \<in> set (clients (tick s))"
    and "clientMeta (tick s) c = Some (m\<lparr>isAlive := False\<rparr>)"
proof -
  have d: "distinct (clients s)" using c by (simp add: consistent_def clients_ok_def)
  note a = hb_alive[OF d mem m alive]
  have i: "c \<notin> set (terminated (snd (heartbeat s)))"
    using a by (simp add: terminated_set heartbeat_def)
  show "count_list (tick_events s) (Close c) = 0"
    using i by (simp add: tick_events_def count_closes count_list_0_iff)
  show "c \<in> set (clients (tick s))" using i mem by (simp add: tick_fields)
  show "clientMeta (tick s) c = Some (m\<lparr>isAlive := False\<rparr>)"
    using i a by (simp add: tick_fields heartbeat_def)
qed

lemma safeSend_sends: "Terminate c \<notin> set (safeSend s ws p)"
  by (simp add: safeSend_def)

lemma sendScoreUpdate_sends: "Terminate c \<notin> set (sendScoreUpdate s ws)"
  by (simp add: sendScoreUpdate_def safeSend_sends split: option.splits)

lemma broadcast_sends: "Terminate c \<notin> set (broadcast_targets s ts)"
  by (induction s ts rule: broadcast_targets.induct) (simp_all add: sendScoreUpdate_sends)

lemma claimRole_sends: "Terminate c \<notin> set (snd (claimRole s ws m r))"
  by (simp add: claimRole_def Let_def sendScoreUpdate_sends split: prod.splits)

lemma onMessage_sends: "Terminate c \<notin> set (snd (onMessage s ws raw now))"
proof (cases rule: onMessage_cases[of s ws raw now])
  case ignored
  then show ?thesis by simp
next
  case (hello data)
  then show ?thesis
    by (simp add: handleHello_def assignClientToGame_def claimRole_sends
          sendScoreUpdate_sends Let_def split: option.splits)
next
  case (state data)
  then show ?thesis
    by (simp add: handleState_def safeSend_sends Let_def split: option.splits prod.splits)
next
  case (shot data)
  then show ?thesis
    by (simp add: handleShot_def safeSend_sends Let_def split: option.splits prod.splits)
next
  case (hit data)
  then show ?thesis
    by (simp add: handleHit_def broadcastScoreUpdateForGame_def broadcast_sends Let_def
          split: option.splits)
next
  case (reset_match data)
  then show ?thesis
    by (simp add: handleResetMatch_def resetMatchForGame_def
          broadcastScoreUpdateForGame_def broadcast_sends Let_def split: option.splits)
qed

lemma gone_effects:
  "gone c s \<Longrightarrow> valid_run s es \<Longrightarrow> Terminate c \<notin> set (run_effects s es)"
proof (induction es arbitrary: s)
  case Nil
  show ?case by simp
next
  case (Cons e es)
  have v: "valid_event s e" and vr: "valid_run (fst (step s e)) es" using Cons.prems(2) by simp_all
  have "c \<notin> set (clients s)" using Cons.prems(1) by (simp add: gone_def)
  then have "Terminate c \<notin> set (snd (heartbeat s))"
    using hb_frame[of c "clients s" s] by (simp add: heartbeat_def)
  then have "Terminate c \<notin> set (snd (step s e))"
    by (cases e) (simp_all add: onMessage_sends Let_def)
  then show ?case
    using gone_step[OF Cons.prems(1) v] Cons.IH[OF _ vr] by simp
qed

lemma stale_step:
  assumes c: "consistent s" and v: "valid_event s e" and np: "e \<noteq> Pong c"
    and o: "stale c s"
  shows "stale c (fst (step s e))"
proof (cases e)
  case Connection
  then show ?thesis using o by (auto simp add: stale_def onConnection_def Let_def)
next
  case (Message ws raw now)
  then have "ws \<in> set (clients s)" using v by simp
  then obtain mw where mw: "clientMeta s ws = Some mw" using registered[OF c] by blast
  from onMessage_fields[OF mw, of raw now] show ?thesis
    using o Message unfolding stale_def by (simp; metis)
next
  case (Pong ws)
  then have "ws \<noteq> c" using np by simp
  then show ?thesis using o Pong
    by (auto simp add: stale_def onPong_def split: option.splits)
next
  case (Closing ws)
  then show ?thesis using o by (auto simp add: stale_def)
next
  case (Close ws)
  then show ?thesis using o
    by (auto simp add: stale_def Let_def onClose_fields)
next
  case Heartbeat
  have d: "distinct (clients s)" using c by (simp add: consistent_def clients_ok_def)
  have "\<exists>m. clientMeta (fst (heartbeat s)) c = Some m \<and> \<not> isAlive m"
    if mem: "c \<in> set (clients s)"
  proof -
    from o mem obtain m where m: "clientMeta s c = Some m" "\<not> isAlive m"
      by (auto simp add: stale_def)
    from hb_dead[OF d mem m] show ?thesis using m(2) by (simp add: heartbeat_def)
  qed
  then show ?thesis using o Heartbeat by (simp add: stale_def heartbeat_def hb_fields)
qed

lemma stale_run:
  "consistent s \<Longrightarrow> valid_run s es \<Longrightarrow> Pong c \<notin> set es \<Longrightarrow> stale c s \<Longrightarrow>
   stale c (run s es)"
proof (induction es arbitrary: s)
  case Nil
  then show ?case by simp
next
  case (Cons e es)
  have v: "valid_event s e" and vr: "valid_run (fst (step s e)) es" using Cons.prems(2) by simp_all
  have np: "e \<noteq> Pong c" and nr: "Pong c \<notin> set es" using Cons.prems(3) by auto
  have c': "consistent (fst (step s e))" using Cons.prems(1) v by (rule consistent_step)
  have o': "stale c (fst (step s e))" using Cons.prems(1) v np Cons.prems(4) by (rule stale_step)
  show ?case using Cons.IH[OF c' vr nr o'] by simp
qed

lemma stale_tick:
  assumes c: "consistent s" and mem: "c \<in> set (clients s)"
  shows "stale c (tick s)"
proof -
  have n: "c < nextConn s"
    using c mem unfolding consistent_def clients_ok_def by blast
  obtain m where m: "clientMeta s c = Some m" using registered[OF c mem] by blast
  show ?thesis
  proof (cases "isAlive m")
    case True
    have "clientMeta (tick s) c = Some (m\<lparr>isAlive := False\<rparr>)"
      using c mem m True by (rule tick_alive(3))
    then have "\<exists>m'. clientMeta (tick s) c = Some m' \<and> \<not> isAlive m'" by simp
    then show ?thesis using n by (simp add: stale_def tick_fields(2))
  next
    case False
    from tick_dead(3)[OF c mem m False] show ?thesis by (simp add: stale_def gone_def)
  qed
qed

lemma stale_cleaned:
  assumes c: "consistent s" and o: "stale c s"
  shows "c \<notin> set (clients (tick s))"
proof (cases "c \<in> set (clients s)")
  case True
  then obtain m where m: "clientMeta s c = Some m" "\<not> isAlive m"
    using o by (auto simp add: stale_def)
  from tick_dead(3)[OF c True m] show ?thesis by (simp add: gone_def)
next
  case False
  then show ?thesis by (simp add: tick_fields)
qed

lemma two_ticks_cleaned:
  assumes c: "consistent s" and mem: "c \<in> set (clients s)"
    and v: "valid_run (tick s) mid" and np: "Pong c \<notin> set mid"
  shows "c \<notin> set (clients (tick (run (tick s) mid)))"
proof -
  have c1: "consistent (tick s)" using c by (rule tick_consistent)
  have o1: "stale c (tick s)" using c mem by (rule stale_tick)
  have c2: "consistent (run (tick s) mid)" using c1 v by (rule consistent_run)
  have o2: "stale c (run (tick s) mid)" using c1 v np o1 by (rule stale_run)
  show ?thesis using c2 o2 by (rule stale_cleaned)
qed

section \<open>The properties\<close>

text \<open>
  Claim C1, as stated, fails: line 244 takes a \<open>kind\<close> that is absent or not a string to
  be \<open>enemy\<close>. After \<open>two_players\<close>, socket 0 (p1 of game 1) sends
  \<open>{type: "hit", kind: 5}\<close>: the \<open>kind\<close> is not the string \<open>enemy\<close>, and the scores
  of game 1 go from 0:0 to 1:0.
\<close>

theorem C1_scores_counterexample:
  "valid_run init_state two_players \<and>
   valid_event (run init_state two_players) (Message 0 (Some (msg_hit_kind (JNum (Fin 5)))) 0) \<and>
   clientMeta (run init_state two_players) 0 =
     Some \<lparr>role = Some P1, isAlive = True, gameId = Some 1\<rparr> \<and>
   field (msg_hit_kind (JNum (Fin 5))) ''type'' = Some (JStr ''hit'') \<and>
   field (msg_hit_kind (JNum (Fin 5))) ''kind'' = Some (JNum (Fin 5)) \<and>
   score_of (run init_state two_players) 1 = Some (0, 0) \<and>
   score_of (fst (step (run init_state two_players)
                   (Message 0 (Some (msg_hit_kind (JNum (Fin 5)))) 0))) 1 = Some (1, 0)"
  by (simp add: two_players_valid two_players_run paired_def msg_hit_kind_def score_of_def
      hit_kind.simps onMessage_def handleHit_def Let_def)

text \<open>
  Claim C1, amended. For every reachable state and every deliverable event: after the
  event both counters of every session are non-negative; a session present before and
  after has changed scores only if the event is a scoring event, that is a \<open>hit\<close> whose
  \<open>kind\<close> is the string \<open>enemy\<close> or is absent or is not a string, or a \<open>reset-match\<close>;
  a session that appears has both scores zero. Such a \<open>hit\<close> from a connection with a role
  and a game id adds 1 to the sender's own counter of its session and changes no other
  counter; a \<open>reset-match\<close> from a connection with a game id sets both counters of its
  session to zero and changes no other counter; a \<open>hit\<close> whose \<open>kind\<close> is a string other
  than \<open>enemy\<close> leaves the whole state unchanged and sends nothing.
\<close>

theorem C1_scores_amended:
  assumes "valid_run init_state es" and "s = run init_state es"
    and "valid_event s e" and "s' = fst (step s e)"
  shows "(\<forall>k a b. score_of s' k = Some (a, b) \<longrightarrow> 0 \<le> a \<and> 0 \<le> b) \<and>
    (\<forall>k x y. score_of s k = Some x \<and> score_of s' k = Some y \<and> x \<noteq> y \<longrightarrow> scoring_event e) \<and>
    (\<forall>k y. score_of s k = None \<and> score_of s' k = Some y \<longrightarrow> y = (0, 0)) \<and>
    (\<forall>ws data now m r k.
       e = Message ws (Some data) now \<and> field data ''type'' = Some (JStr ''hit'') \<and>
       enemy_kind data \<and>
       clientMeta s ws = Some m \<and> role m = Some r \<and> gameId m = Some k \<longrightarrow>
         (\<exists>a b. score_of s k = Some (a, b) \<and>
                score_of s' k = Some (if r = P1 then (a + 1, b) else (a, b + 1))) \<and>
         (\<forall>k'. k' \<noteq> k \<longrightarrow> score_of s' k' = score_of s k')) \<and>
    (\<forall>ws data now m k.
       e = Message ws (Some data) now \<and> field data ''type'' = Some (JStr ''reset-match'') \<and>
       clientMeta s ws = Some m \<and> gameId m = Some k \<longrightarrow>
         score_of s' k = Some (0, 0) \<and>
         (\<forall>k'. k' \<noteq> k \<longrightarrow> score_of s' k' = score_of s k')) \<and>
    (\<forall>ws data now.
       e = Message ws (Some data) now \<and> field data ''type'' = Some (JStr ''hit'') \<and>
       \<not> enemy_kind data \<longrightarrow> step s e = (s, []))"
proof -
  have c: "consistent s" using assms(1,2) by (simp add: consistent_reachable)
  have c': "consistent s'" using c assms(3,4) by (simp add: consistent_step)
  have mok: "meta_ok s" using c by (simp add: consistent_def)
  have 1: "0 \<le> a \<and> 0 \<le> b" if "score_of s' k = Some (a, b)" for k a b
  proof -
    from that obtain g where "map_of (games s') k = Some g" "a = scores_p1 g" "b = scores_p2 g"
      by (auto simp add: score_of_def)
    then show ?thesis using c' unfolding consistent_def games_ok_def by blast
  qed
  have k: "kept s s'" if "\<not> scoring_event e"
    using kept_step[OF c assms(3) that] assms(4) by simp
  have 2: "scoring_event e" if "score_of s k = Some x" "score_of s' k = Some y" "x \<noteq> y"
    for k x y
  proof (rule ccontr)
    assume "\<not> scoring_event e"
    from k[OF this] that show False unfolding kept_def by (metis option.distinct(1) option.inject)
  qed
  have 3: "y = (0, 0)" if n: "score_of s k = None" and y: "score_of s' k = Some y" for k y
  proof (cases "scoring_event e")
    case False
    from k[OF this] n y show ?thesis unfolding kept_def by (metis option.distinct(1) option.inject)
  next
    case True
    then obtain ws raw now where e: "e = Message ws raw now" and sc: "scoring_input raw"
      by (cases e) simp_all
    have "score_of s' k = None" using onMessage_dom[OF sc n] e assms(4) by simp
    then show ?thesis using y by simp
  qed
  have 4: "(\<exists>a b. score_of s k = Some (a, b) \<and>
                score_of s' k = Some (if r = P1 then (a + 1, b) else (a, b + 1))) \<and>
         (\<forall>k'. k' \<noteq> k \<longrightarrow> score_of s' k' = score_of s k')"
    if e: "e = Message ws (Some data) now" and t: "field data ''type'' = Some (JStr ''hit'')"
      and en: "enemy_kind data"
      and m: "clientMeta s ws = Some m" "role m = Some r" "gameId m = Some k"
    for ws data now m r k
  proof -
    obtain g where g: "map_of (games s) k = Some g"
      using reachable_game[OF assms(1,2) m] by blast
    have gs: "games s' = AList.update k (if r = P1 then g\<lparr>scores_p1 := scores_p1 g + 1\<rparr>
                           else g\<lparr>scores_p2 := scores_p2 g + 1\<rparr>) (games s)"
      using handleHit_enemy[OF en m g] e t assms(4) by (simp add: onMessage_dispatch)
    have "score_of s k = Some (scores_p1 g, scores_p2 g)" using g by (simp add: score_of_def)
    then show ?thesis by (simp add: score_of_update[OF gs])
  qed
  have 5: "score_of s' k = Some (0, 0) \<and> (\<forall>k'. k' \<noteq> k \<longrightarrow> score_of s' k' = score_of s k')"
    if e: "e = Message ws (Some data) now"
      and t: "field data ''type'' = Some (JStr ''reset-match'')"
      and m: "clientMeta s ws = Some m" "gameId m = Some k"
    for ws data now m k
  proof -
    obtain r where r: "role m = Some r" using mok m unfolding meta_ok_def by fastforce
    obtain g where g: "map_of (games s) k = Some g"
      using reachable_game[OF assms(1,2) m(1) r m(2)] by blast
    have gs: "games s' = AList.update k (g\<lparr>scores_p1 := 0, scores_p2 := 0\<rparr>) (games s)"
      using handleResetMatch_games[OF m g] e t assms(4) by (simp add: onMessage_dispatch)
    show ?thesis by (simp add: score_of_update[OF gs])
  qed
  have 6: "step s e = (s, [])"
    if "e = Message ws (Some data) now" "field data ''type'' = Some (JStr ''hit'')"
       "\<not> enemy_kind data" for ws data now
    using that by (simp add: onMessage_dispatch handleHit_other_kind)
  have c1: "\<forall>k a b. score_of s' k = Some (a, b) \<longrightarrow> 0 \<le> a \<and> 0 \<le> b"
    using 1 by blast
  have c2: "\<forall>k x y. score_of s k = Some x \<and> score_of s' k = Some y \<and> x \<noteq> y \<longrightarrow>
              scoring_event e"
    using 2 by blast
  have c3: "\<forall>k y. score_of s k = None \<and> score_of s' k = Some y \<longrightarrow> y = (0, 0)"
    using 3 by blast
  have c4: "\<forall>ws data now m r k.
       e = Message ws (Some data) now \<and> field data ''type'' = Some (JStr ''hit'') \<and>
       enemy_kind data \<and>
       clientMeta s ws = Some m \<and> role m = Some r \<and> gameId m = Some k \<longrightarrow>
         (\<exists>a b. score_of s k = Some (a, b) \<and>
                score_of s' k = Some (if r = P1 then (a + 1, b) else (a, b + 1))) \<and>
         (\<forall>k'. k' \<noteq> k \<longrightarrow> score_of s' k' = score_of s k')"
  proof (intro allI impI, elim conjE)
    fix ws data now m r k
    assume "e = Message ws (Some data) now" "field data ''type'' = Some (JStr ''hit'')"
      "enemy_kind data" "clientMeta s ws = Some m" "role m = Some r" "gameId m = Some k"
    then show "(\<exists>a b. score_of s k = Some (a, b) \<and>
                score_of s' k = Some (if r = P1 then (a + 1, b) else (a, b + 1))) \<and>
         (\<forall>k'. k' \<noteq> k \<longrightarrow> score_of s' k' = score_of s k')"
      by (rule 4)
  qed
  have c5: "\<forall>ws data now m k.
       e = Message ws (Some data) now \<and> field data ''type'' = Some (JStr ''reset-match'') \<and>
       clientMeta s ws = Some m \<and> gameId m = Some k \<longrightarrow>
         score_of s' k = Some (0, 0) \<and>
         (\<forall>k'. k' \<noteq> k \<longrightarrow> score_of s' k' = score_of s k')"
  proof (intro allI impI, elim conjE)
    fix ws data now m k
    assume "e = Message ws (Some data) now" "field data ''type'' = Some (JStr ''reset-match'')"
      "clientMeta s ws = Some m" "gameId m = Some k"
    then show "score_of s' k = Some (0, 0) \<and>
         (\<forall>k'. k' \<noteq> k \<longrightarrow> score_of s' k' = score_of s k')"
      by (rule 5)
  qed
  have c6: "\<forall>ws data now.
       e = Message ws (Some data) now \<and> field data ''type'' = Some (JStr ''hit'') \<and>
       \<not> enemy_kind data \<longrightarrow> step s e = (s, [])"
  proof (intro allI impI, elim conjE)
    fix ws data now
    assume "e = Message ws (Some data) now" "field data ''type'' = Some (JStr ''hit'')"
      "\<not> enemy_kind data"
    then show "step s e = (s, [])" by (rule 6)
  qed
  show ?thesis by (intro conjI c1 c2 c3 c4 c5 c6)
qed


text \<open>
  After \<open>two_players\<close>: a \<open>hit\<close> without a \<open>kind\<close> from socket 0 takes game 1 from
  0:0 to 1:0; a \<open>hit\<close> of kind \<open>friendly\<close> from socket 1 changes nothing.
\<close>

theorem C1_scores_amended_witness:
  "valid_run init_state two_players \<and>
   valid_event (run init_state two_players) (Message 0 (Some (msg_plain ''hit'')) 0) \<and>
   scoring_event (Message 0 (Some (msg_plain ''hit'')) 0) \<and>
   score_of (run init_state two_players) 1 = Some (0, 0) \<and>
   score_of (fst (step (run init_state two_players) (Message 0 (Some (msg_plain ''hit'')) 0))) 1 =
     Some (1, 0) \<and>
   valid_event (run init_state two_players)
     (Message 1 (Some (msg_hit_kind (JStr ''friendly''))) 0) \<and>
   \<not> enemy_kind (msg_hit_kind (JStr ''friendly'')) \<and>
   step (run init_state two_players) (Message 1 (Some (msg_hit_kind (JStr ''friendly''))) 0) =
     (run init_state two_players, [])"
proof -
  have v1: "valid_event (run init_state two_players) (Message 0 (Some (msg_plain ''hit'')) 0)"
    by (simp add: two_players_run paired_def)
  have v2: "valid_event (run init_state two_players)
     (Message 1 (Some (msg_hit_kind (JStr ''friendly''))) 0)"
    by (simp add: two_players_run paired_def)
  have k1: "enemy_kind (msg_plain ''hit'')" by (simp add: enemy_kind_def msg_plain_def)
  have k2: "\<not> enemy_kind (msg_hit_kind (JStr ''friendly''))"
    by (simp add: enemy_kind_def msg_hit_kind_def)
  have t1: "field (msg_plain ''hit'') ''type'' = Some (JStr ''hit'')" by (simp add: msg_plain_def)
  have t2: "field (msg_hit_kind (JStr ''friendly'')) ''type'' = Some (JStr ''hit'')"
    by (simp add: msg_hit_kind_def)
  have m: "clientMeta (run init_state two_players) 0 =
     Some \<lparr>role = Some P1, isAlive = True, gameId = Some 1\<rparr>"
    by (simp add: two_players_run paired_def)
  have s0: "score_of (run init_state two_players) 1 = Some (0, 0)"
    by (simp add: two_players_run paired_def score_of_def)
  from C1_scores_amended [OF two_players_valid refl v1 refl]
  have "\<exists>a b. score_of (run init_state two_players) 1 = Some (a, b) \<and>
           score_of (fst (step (run init_state two_players) (Message 0 (Some (msg_plain ''hit'')) 0))) 1 =
             Some (if P1 = P1 then (a + 1, b) else (a, b + 1))"
    using t1 k1 m by fastforce
  then have s1: "score_of (fst (step (run init_state two_players)
                   (Message 0 (Some (msg_plain ''hit'')) 0))) 1 = Some (1, 0)"
    using s0 by simp
  from C1_scores_amended [OF two_players_valid refl v2 refl]
  have s2: "step (run init_state two_players) (Message 1 (Some (msg_hit_kind (JStr ''friendly''))) 0) =
     (run init_state two_players, [])"
    using t2 k2 by blast
  show ?thesis using two_players_valid v1 v2 k1 k2 s0 s1 s2 t1 by simp
qed

text \<open>
  Claim C2. In every state reached by any sequence of deliverable events (connections,
  messages of every type, pongs, disconnects, timer ticks): session ids are pairwise
  distinct, so a slot is one field of one game and holds at most one connection; and a
  connection that occupies a slot occupies no other one, neither in another session nor
  the second slot of the same session.
\<close>

theorem C2_one_slot_per_connection:
  assumes "valid_run init_state es" and "s = run init_state es"
  shows "distinct (map fst (games s)) \<and>
         (\<forall>k g g' r c c'. (k, g) \<in> set (games s) \<and> roles_at g r = Some c \<and>
              (k, g') \<in> set (games s) \<and> roles_at g' r = Some c' \<longrightarrow> c = c') \<and>
         (\<forall>k1 g1 r1 k2 g2 r2 c. (k1, g1) \<in> set (games s) \<and> roles_at g1 r1 = Some c \<and>
              (k2, g2) \<in> set (games s) \<and> roles_at g2 r2 = Some c \<longrightarrow> k1 = k2 \<and> r1 = r2)"
proof -
  have "consistent s" using assms by (simp add: consistent_reachable)
  then have gok: "games_ok s" and sok: "slots_ok s" by (simp_all add: consistent_def)
  have d: "distinct (map fst (games s))" using gok by (simp add: games_ok_def)
  have 1: "c = c'" if "(k, g) \<in> set (games s)" "roles_at g r = Some c"
      "(k, g') \<in> set (games s)" "roles_at g' r = Some c'" for k g g' r c c'
  proof -
    have "map_of (games s) k = Some g" by (rule map_of_is_SomeI[OF d that(1)])
    moreover have "map_of (games s) k = Some g'" by (rule map_of_is_SomeI[OF d that(3)])
    ultimately have "g = g'" by simp
    then show ?thesis using that by simp
  qed
  have 2: "k1 = k2 \<and> r1 = r2"
    if p1: "(k1, g1) \<in> set (games s)" and p2: "roles_at g1 r1 = Some c"
      and p3: "(k2, g2) \<in> set (games s)" and p4: "roles_at g2 r2 = Some c"
    for k1 g1 r1 k2 g2 r2 c
  proof -
    have a: "map_of (games s) k1 = Some g1" by (rule map_of_is_SomeI[OF d p1])
    have b: "map_of (games s) k2 = Some g2" by (rule map_of_is_SomeI[OF d p3])
    obtain m1 where m1: "clientMeta s c = Some m1" "role m1 = Some r1" "gameId m1 = Some k1"
      using sok a p2 unfolding slots_ok_def by blast
    obtain m2 where m2: "clientMeta s c = Some m2" "role m2 = Some r2" "gameId m2 = Some k2"
      using sok b p4 unfolding slots_ok_def by blast
    show ?thesis using m1 m2 by simp
  qed
  show ?thesis using d 1 2 by blast
qed

text \<open>The run \<open>two_players\<close> ends with one game, whose two slots hold sockets 0 and 1.\<close>

theorem C2_one_slot_per_connection_witness:
  "valid_run init_state two_players \<and>
   distinct (map fst (games (run init_state two_players))) \<and>
   (1, \<lparr>game_id = 1, roles_p1 = Some 0, roles_p2 = Some 1, scores_p1 = 0, scores_p2 = 0\<rparr>)
      \<in> set (games (run init_state two_players))"
  using C2_one_slot_per_connection [OF two_players_valid refl]
  by (simp add: two_players_valid two_players_run paired_def)

text \<open>
  Claim C3. In a reachable state the store lists the sessions in creation order, that is
  by increasing id (\<open>creation_order\<close>), and every id in it is below \<open>nextGameId\<close>.
  A \<open>hello\<close> from an open connection whose record lacks a role or a game id is handled
  as follows. The session chosen is the first one of the store with fewer than 2 occupied
  slots and the desired slot empty (\<open>first_fit\<close>); no session that qualifies has a
  smaller id. If there is one, the desired slot of that session is set to this connection,
  in place. If there is none, a session with the id \<open>nextGameId\<close>, which no session of
  the store has, both slots empty and both scores zero is appended to the store, the
  counter advances, and the desired slot of the new session is set to this connection.
  The connection's record gets the role and that session's id, nothing else changes, and
  exactly one message is sent: to this connection, with the session's two scores and
  \<open>pointsToWin\<close>.
\<close>

theorem C3_first_fit:
  assumes "valid_run init_state es" and "s = run init_state es"
    and "field data ''type'' = Some (JStr ''hello'')"
    and "clientMeta s ws = Some m" and "role m = None \<or> gameId m = None"
    and "ws \<in> opened s"
    and "step s (Message ws (Some data) now) = (s', out)"
  shows "creation_order s \<and> (\<forall>k \<in> fst ` set (games s). k < nextGameId s) \<and>
         (case first_fit (desired data) (games s) of
            Some (k, g) \<Rightarrow>
              map_of (games s) k = Some g \<and>
              (\<forall>(k', g') \<in> set (games s).
                 occupancy g' < 2 \<and> roles_at g' (desired data) = None \<longrightarrow> k \<le> k') \<and>
              games s' = AList.update k (roles_set g (desired data) (Some ws)) (games s) \<and>
              nextGameId s' = nextGameId s \<and>
              clientMeta s' =
                (clientMeta s)(ws \<mapsto> m\<lparr>role := Some (desired data), gameId := Some k\<rparr>) \<and>
              out = [Send ws (ScoreUpdate (scores_p1 g) (scores_p2 g) pointsToWin)]
          | None \<Rightarrow>
              (\<forall>(k', g') \<in> set (games s).
                 \<not> (occupancy g' < 2 \<and> roles_at g' (desired data) = None)) \<and>
              nextGameId s \<notin> fst ` set (games s) \<and>
              games s' = games s @
                [(nextGameId s, roles_set (new_game (nextGameId s)) (desired data) (Some ws))] \<and>
              nextGameId s' = nextGameId s + 1 \<and>
              clientMeta s' =
                (clientMeta s)(ws \<mapsto> m\<lparr>role := Some (desired data),
                                         gameId := Some (nextGameId s)\<rparr>) \<and>
              out = [Send ws (ScoreUpdate 0 0 pointsToWin)]) \<and>
         clients s' = clients s \<and> opened s' = opened s \<and> nextConn s' = nextConn s"
proof -
  let ?r = "desired data"
  have c: "consistent s" using assms(1,2) by (simp add: consistent_reachable)
  then have gok: "games_ok s" by (simp add: consistent_def)
  have ord: "creation_order s"
    using assms(1,2) by (simp add: creation_order_reachable)
  have below: "\<forall>k \<in> fst ` set (games s). k < nextGameId s"
  proof
    fix k assume "k \<in> fst ` set (games s)"
    then obtain g where "(k, g) \<in> set (games s)" by auto
    then have "map_of (games s) k = Some g" using gok by (simp add: games_ok_def)
    then show "k < nextGameId s" using gok unfolding games_ok_def by blast
  qed
  have st: "claimRole s ws m ?r = (s', out)"
    using assms(3-5,7)
    by (auto simp add: onMessage_dispatch handleHello_def assignClientToGame_def desired_def
          split: if_splits)
  show ?thesis
  proof (cases "first_fit ?r (games s)")
    case None
    let ?n = "nextGameId s"
    have fresh: "?n \<notin> fst ` set (games s)"
      using below by blast
    have none: "\<forall>(k', g') \<in> set (games s).
                 \<not> (occupancy g' < 2 \<and> roles_at g' ?r = None)"
      using None unfolding first_fit_def find_None_iff by blast
    have tg: "targetGame s ?r = (s\<lparr>nextGameId := ?n + 1,
                 games := games s @ [(?n, new_game ?n)]\<rparr>, ?n, new_game ?n)"
      using None fresh
      by (simp add: targetGame_def findGame_first_fit new_game_def update_fresh Let_def)
    have eq: "games s @ [(?n, new_game ?n)] = AList.update ?n (new_game ?n) (games s)"
      by (simp add: update_fresh[OF fresh])
    have "(s', out) =
       (s\<lparr>nextGameId := ?n + 1,
          games := games s @ [(?n, roles_set (new_game ?n) ?r (Some ws))],
          clientMeta := (clientMeta s)(ws \<mapsto> m\<lparr>role := Some ?r, gameId := Some ?n\<rparr>)\<rparr>,
        [Send ws (ScoreUpdate 0 0 pointsToWin)])"
      unfolding st[symmetric] claimRole_eq[OF tg, of ws m, simplified new_game_def, simplified]
      using assms(6) by (simp add: update_appended[OF fresh] new_game_def)
    then have "nextGameId s' = ?n + 1"
      "games s' = games s @ [(?n, roles_set (new_game ?n) ?r (Some ws))]"
      "clientMeta s' = (clientMeta s)(ws \<mapsto> m\<lparr>role := Some ?r, gameId := Some ?n\<rparr>)"
      "out = [Send ws (ScoreUpdate 0 0 pointsToWin)]"
      "clients s' = clients s" "opened s' = opened s" "nextConn s' = nextConn s"
      by simp_all
    then show ?thesis using None fresh none ord below by simp
  next
    case (Some kg)
    obtain k g where kg: "kg = (k, g)" by (cases kg)
    have mem: "(k, g) \<in> set (games s)" using first_fit_SomeD Some kg by blast
    have g: "map_of (games s) k = Some g" using mem gok by (simp add: games_ok_def)
    have id: "game_id g = k" using g gok unfolding games_ok_def by blast
    have tg: "targetGame s ?r = (s, k, g)"
      using Some kg by (simp add: targetGame_def findGame_first_fit)
    have "(s', out) =
       (s\<lparr>games := AList.update k (roles_set g ?r (Some ws)) (games s),
          clientMeta := (clientMeta s)(ws \<mapsto> m\<lparr>role := Some ?r, gameId := Some k\<rparr>)\<rparr>,
        [Send ws (ScoreUpdate (scores_p1 g) (scores_p2 g) pointsToWin)])"
      unfolding st[symmetric] claimRole_eq[OF tg id] using assms(6) by simp
    then have "nextGameId s' = nextGameId s"
      "games s' = AList.update k (roles_set g ?r (Some ws)) (games s)"
      "clientMeta s' = (clientMeta s)(ws \<mapsto> m\<lparr>role := Some ?r, gameId := Some k\<rparr>)"
      "out = [Send ws (ScoreUpdate (scores_p1 g) (scores_p2 g) pointsToWin)]"
      "clients s' = clients s" "opened s' = opened s" "nextConn s' = nextConn s"
      by simp_all
    moreover have least: "\<forall>(k', g') \<in> set (games s).
                 occupancy g' < 2 \<and> roles_at g' ?r = None \<longrightarrow> k \<le> k'"
    proof -
      have f: "List.find (\<lambda>(k, g). occupancy g < 2 \<and> roles_at g ?r = None) (games s) =
                 Some (k, g)"
        using Some kg by (simp add: first_fit_def)
      have "k \<le> k'" if "(k', g') \<in> set (games s)" "occupancy g' < 2"
          "roles_at g' ?r = None" for k' g'
        using find_sorted_least[OF ord[unfolded creation_order_def] f that(1)] that(2,3)
        by simp
      then show ?thesis by blast
    qed
    ultimately show ?thesis using Some kg g ord below by simp
  qed
qed


text \<open>
  The run \<open>three_players\<close> leaves game 1 with p1 free and the score 0:1, and game 2 with
  p1 free, and the unassigned socket 3. Asking for p1, socket 3 gets game 1, the older
  one, and is sent 0:1. Asking for p2, it gets the new game 3 and is sent 0:0.
\<close>

theorem C3_first_fit_witness:
  "valid_run init_state three_players \<and>
   3 \<in> opened (run init_state three_players) \<and>
   creation_order (run init_state three_players) \<and>
   field (msg_hello ''p1'') ''type'' = Some (JStr ''hello'') \<and>
   clientMeta (run init_state three_players) 3 =
     Some \<lparr>role = None, isAlive = True, gameId = None\<rparr> \<and>
   first_fit (desired (msg_hello ''p1'')) (games (run init_state three_players)) =
     Some (1, \<lparr>game_id = 1, roles_p1 = None, roles_p2 = Some 1,
                scores_p1 = 0, scores_p2 = 1\<rparr>) \<and>
   games (fst (step (run init_state three_players) (Message 3 (Some (msg_hello ''p1'')) 0))) =
     [(1, \<lparr>game_id = 1, roles_p1 = Some 3, roles_p2 = Some 1, scores_p1 = 0, scores_p2 = 1\<rparr>),
      (2, \<lparr>game_id = 2, roles_p1 = None, roles_p2 = Some 2, scores_p1 = 0, scores_p2 = 0\<rparr>)] \<and>
   snd (step (run init_state three_players) (Message 3 (Some (msg_hello ''p1'')) 0)) =
     [Send 3 (ScoreUpdate 0 1 7)] \<and>
   first_fit (desired (msg_hello ''p2'')) (games (run init_state three_players)) = None \<and>
   games (fst (step (run init_state three_players) (Message 3 (Some (msg_hello ''p2'')) 0))) =
     [(1, \<lparr>game_id = 1, roles_p1 = None, roles_p2 = Some 1, scores_p1 = 0, scores_p2 = 1\<rparr>),
      (2, \<lparr>game_id = 2, roles_p1 = None, roles_p2 = Some 2, scores_p1 = 0, scores_p2 = 0\<rparr>),
      (3, \<lparr>game_id = 3, roles_p1 = None, roles_p2 = Some 3, scores_p1 = 0, scores_p2 = 0\<rparr>)] \<and>
   snd (step (run init_state three_players) (Message 3 (Some (msg_hello ''p2'')) 0)) =
     [Send 3 (ScoreUpdate 0 0 7)]"
proof -
  have t: "field (msg_hello r) ''type'' = Some (JStr ''hello'')" for r
    by (simp add: msg_hello_def)
  have m: "clientMeta (run init_state three_players) 3 =
     Some \<lparr>role = None, isAlive = True, gameId = None\<rparr>"
    by (simp add: three_players_eval)
  have u: "role \<lparr>role = None, isAlive = True, gameId = None\<rparr> = None \<or>
           gameId \<lparr>role = None, isAlive = True, gameId = None\<rparr> = None" by simp
  have o: "3 \<in> opened (run init_state three_players)"
    by (simp add: three_players_eval)
  have st: "step s e = (fst (step s e), snd (step s e))" for s e by simp
  show ?thesis
    using C3_first_fit [OF three_players_valid refl t m u o st, of "''p1''" 0]
      C3_first_fit [OF three_players_valid refl t m u o st, of "''p2''" 0]
    by (simp add: three_players_valid three_players_eval
        first_fit_def occupancy_def desired_def new_game_def creation_order_def)
qed

text \<open>
  Claim C4. When the \<open>close\<close> event of a socket is handled in a reachable state, the
  socket's record is gone afterwards, whether or not it held a slot. If its
  record had a role and a game id, then that game is in the store and its slot of that
  role holds the socket; the handler empties that slot, and the game is absent from the
  store afterwards if and only if both slots are then empty; otherwise the game stays,
  with only that slot emptied (the other occupant and the scores untouched). No other
  game is touched. A socket without a role leaves the store as it is.
\<close>

theorem C4_disconnect_cleanup:
  assumes "valid_run init_state es" and "s = run init_state es"
    and "s' = fst (step s (Close ws))"
  shows "clientMeta s' ws = None \<and>
    (\<forall>m r k. clientMeta s ws = Some m \<and> role m = Some r \<and> gameId m = Some k \<longrightarrow>
       (\<exists>g. map_of (games s) k = Some g \<and> roles_at g r = Some ws \<and>
          (map_of (games s') k = None \<longleftrightarrow>
             roles_p1 (roles_set g r None) = None \<and> roles_p2 (roles_set g r None) = None) \<and>
          (\<not> (roles_p1 (roles_set g r None) = None \<and> roles_p2 (roles_set g r None) = None) \<longrightarrow>
             map_of (games s') k = Some (roles_set g r None)) \<and>
          (\<forall>k'. k' \<noteq> k \<longrightarrow> map_of (games s') k' = map_of (games s) k'))) \<and>
    (\<forall>m. clientMeta s ws = Some m \<and> role m = None \<longrightarrow> games s' = games s)"
proof -
  have c: "consistent s" using assms(1,2) by (simp add: consistent_reachable)
  then have mok: "meta_ok s" by (simp add: consistent_def)
  have 1: "clientMeta s' ws = None"
    using assms(3) by (simp add: onClose_def Let_def)
  have 2: "\<exists>g. map_of (games s) k = Some g \<and> roles_at g r = Some ws \<and>
          (map_of (games s') k = None \<longleftrightarrow>
             roles_p1 (roles_set g r None) = None \<and> roles_p2 (roles_set g r None) = None) \<and>
          (\<not> (roles_p1 (roles_set g r None) = None \<and> roles_p2 (roles_set g r None) = None) \<longrightarrow>
             map_of (games s') k = Some (roles_set g r None)) \<and>
          (\<forall>k'. k' \<noteq> k \<longrightarrow> map_of (games s') k' = map_of (games s) k')"
    if m: "clientMeta s ws = Some m" "role m = Some r" "gameId m = Some k" for m r k
  proof -
    obtain g where g: "map_of (games s) k = Some g" and h: "roles_at g r = Some ws"
      using reachable_game[OF assms(1,2) m] by blast
    let ?e = "roles_p1 (roles_set g r None) = None \<and> roles_p2 (roles_set g r None) = None"
    have gs: "games s' = (if ?e then AList.delete k (games s)
                          else AList.update k (roles_set g r None) (games s))"
      using assms(3) m g h by (cases "?e") (auto simp add: onClose_def Let_def)
    have "map_of (games s') = (if ?e then (map_of (games s))(k := None)
                               else (map_of (games s))(k \<mapsto> roles_set g r None))"
      unfolding gs by (simp add: update_conv' delete_conv')
    then show ?thesis using g h by (cases "?e") auto
  qed
  have 3: "games s' = games s" if "clientMeta s ws = Some m" "role m = None" for m
  proof -
    have "gameId m = None" using mok that unfolding meta_ok_def by blast
    then show ?thesis using assms(3) that by (simp add: onClose_def Let_def)
  qed
  show ?thesis using 1 2 3 by blast
qed

text \<open>
  After \<open>two_players\<close>, socket 0 closes: game 1 stays, with p2 still socket 1. Then
  socket 1 closes as well: game 1 is deleted.
\<close>

theorem C4_disconnect_cleanup_witness:
  "valid_run init_state two_players \<and>
   clientMeta (run init_state two_players) 0 =
     Some \<lparr>role = Some P1, isAlive = True, gameId = Some 1\<rparr> \<and>
   clientMeta (fst (step (run init_state two_players) (Close 0))) 0 = None \<and>
   map_of (games (fst (step (run init_state two_players) (Close 0)))) 1 =
     Some \<lparr>game_id = 1, roles_p1 = None, roles_p2 = Some 1, scores_p1 = 0, scores_p2 = 0\<rparr> \<and>
   valid_run init_state one_left \<and>
   clientMeta (run init_state one_left) 1 =
     Some \<lparr>role = Some P2, isAlive = True, gameId = Some 1\<rparr> \<and>
   clientMeta (fst (step (run init_state one_left) (Close 1))) 1 = None \<and>
   map_of (games (fst (step (run init_state one_left) (Close 1)))) 1 = None"
proof -
  have v: "valid_run init_state one_left"
    by (simp add: one_left_def two_players_def msg_hello_def init_state_def handler_defs)
  show ?thesis
    using C4_disconnect_cleanup [OF two_players_valid refl refl, of 0]
      C4_disconnect_cleanup [OF v refl refl, of 1]
    by (simp add: v two_players_valid one_left_def two_players_def msg_hello_def
        init_state_def handler_defs)
qed

text \<open>
  Claim C5, as stated, fails: \<open>typeof x === "number"\<close> (lines 198-207) also holds of an
  infinity, which \<open>JSON.stringify\<close> (line 46) writes as \<open>null\<close>. After \<open>two_players\<close>,
  socket 0 (p1, peer socket 1 open) sends \<open>{"type": "state", "snapX": 1e400}\<close>, which
  decodes to \<open>snapX = Infinity\<close>: \<open>snapX\<close> is present and numeric, and the message sent
  to socket 1 says \<open>snapX: null\<close>, which is neither the sender's value nor 0.
\<close>

theorem C5_state_update_relay_counterexample:
  "valid_run init_state two_players \<and>
   clientMeta (run init_state two_players) 0 =
     Some \<lparr>role = Some P1, isAlive = True, gameId = Some 1\<rparr> \<and>
   1 \<in> opened (run init_state two_players) \<and>
   field msg_state_big ''type'' = Some (JStr ''state'') \<and>
   field msg_state_big ''snapX'' = Some (JNum PlusInfinity) \<and>
   snd (step (run init_state two_players) (Message 0 (Some msg_state_big) 0)) =
     [Send 1 (RemoteState
        \<lparr>rs_from = P1, rs_snapX = JNull, rs_snapY = JNum (Fin 0), rs_crouch = JNum (Fin 0),
         rs_aimX = JNum (Fin 0), rs_aimY = JNum (Fin 0), rs_exposure = JNum (Fin 0),
         rs_targetX = JNull, rs_targetY = JNull, rs_targetZ = JNull, rs_t = JNum (Fin 0)\<rparr>)]"
  by (simp add: two_players_valid two_players_run paired_def msg_state_big_def handler_defs)

text \<open>
  Claim C5, amended. A \<open>state\<close> message never changes the state. From a connection whose
  record has a role and a game id, in a reachable state, the game is in the store, and:
  when the other slot of that game holds a socket that is open, exactly one message goes
  out, to that socket, in which each of \<open>snapX\<close>, \<open>snapY\<close>, \<open>crouch\<close>, \<open>aimX\<close>,
  \<open>aimY\<close>, \<open>exposure\<close>, \<open>t\<close> is the sender's value when that is a finite number, null
  when it is a number beyond the range of doubles, and 0 otherwise, and each of
  \<open>targetX\<close>, \<open>targetY\<close>, \<open>targetZ\<close> is the sender's value when that is a finite number
  and null otherwise; when the other slot is empty or its socket is not open, nothing is
  sent. From a connection without a role or without a game id nothing changes and nothing
  is sent.
\<close>

theorem C5_state_update_relay_amended:
  assumes "valid_run init_state es" and "s = run init_state es"
    and "field data ''type'' = Some (JStr ''state'')"
  shows "fst (step s (Message ws (Some data) now)) = s \<and>
    (\<forall>m r k. clientMeta s ws = Some m \<and> role m = Some r \<and> gameId m = Some k \<longrightarrow>
       (\<exists>g. map_of (games s) k = Some g \<and>
          (\<forall>dest. roles_at g (other r) = Some dest \<and> dest \<in> opened s \<longrightarrow>
             (\<exists>p. snd (step s (Message ws (Some data) now)) = [Send dest (RemoteState p)] \<and>
                  rs_from p = r \<and>
                  passes data ''snapX'' (JNum (Fin 0)) (rs_snapX p) \<and>
                  passes data ''snapY'' (JNum (Fin 0)) (rs_snapY p) \<and>
                  passes data ''crouch'' (JNum (Fin 0)) (rs_crouch p) \<and>
                  passes data ''aimX'' (JNum (Fin 0)) (rs_aimX p) \<and>
                  passes data ''aimY'' (JNum (Fin 0)) (rs_aimY p) \<and>
                  passes data ''exposure'' (JNum (Fin 0)) (rs_exposure p) \<and>
                  passes data ''t'' (JNum (Fin 0)) (rs_t p) \<and>
                  passes data ''targetX'' JNull (rs_targetX p) \<and>
                  passes data ''targetY'' JNull (rs_targetY p) \<and>
                  passes data ''targetZ'' JNull (rs_targetZ p))) \<and>
          ((roles_at g (other r) = None \<or>
            (\<exists>dest. roles_at g (other r) = Some dest \<and> dest \<notin> opened s)) \<longrightarrow>
             snd (step s (Message ws (Some data) now)) = []))) \<and>
    ((clientMeta s ws = None \<or>
      (\<exists>m. clientMeta s ws = Some m \<and> (role m = None \<or> gameId m = None))) \<longrightarrow>
       step s (Message ws (Some data) now) = (s, []))"
proof -
  have st: "step s (Message ws (Some data) now) = (s, handleState s ws data)"
    using assms(3) by (simp add: onMessage_dispatch)
  have 1: "fst (step s (Message ws (Some data) now)) = s" using st by simp
  have 2: "\<exists>g. map_of (games s) k = Some g \<and>
          (\<forall>dest. roles_at g (other r) = Some dest \<and> dest \<in> opened s \<longrightarrow>
             (\<exists>p. snd (step s (Message ws (Some data) now)) = [Send dest (RemoteState p)] \<and>
                  rs_from p = r \<and>
                  passes data ''snapX'' (JNum (Fin 0)) (rs_snapX p) \<and>
                  passes data ''snapY'' (JNum (Fin 0)) (rs_snapY p) \<and>
                  passes data ''crouch'' (JNum (Fin 0)) (rs_crouch p) \<and>
                  passes data ''aimX'' (JNum (Fin 0)) (rs_aimX p) \<and>
                  passes data ''aimY'' (JNum (Fin 0)) (rs_aimY p) \<and>
                  passes data ''exposure'' (JNum (Fin 0)) (rs_exposure p) \<and>
                  passes data ''t'' (JNum (Fin 0)) (rs_t p) \<and>
                  passes data ''targetX'' JNull (rs_targetX p) \<and>
                  passes data ''targetY'' JNull (rs_targetY p) \<and>
                  passes data ''targetZ'' JNull (rs_targetZ p))) \<and>
          ((roles_at g (other r) = None \<or>
            (\<exists>dest. roles_at g (other r) = Some dest \<and> dest \<notin> opened s)) \<longrightarrow>
             snd (step s (Message ws (Some data) now)) = [])"
    if m: "clientMeta s ws = Some m" "role m = Some r" "gameId m = Some k" for m r k
  proof -
    obtain g where g: "map_of (games s) k = Some g"
      using reachable_game[OF assms(1,2) m] by blast
    note rd = relayDest_eq[OF m g]
    have a: "\<exists>p. snd (step s (Message ws (Some data) now)) = [Send dest (RemoteState p)] \<and>
                  rs_from p = r \<and>
                  passes data ''snapX'' (JNum (Fin 0)) (rs_snapX p) \<and>
                  passes data ''snapY'' (JNum (Fin 0)) (rs_snapY p) \<and>
                  passes data ''crouch'' (JNum (Fin 0)) (rs_crouch p) \<and>
                  passes data ''aimX'' (JNum (Fin 0)) (rs_aimX p) \<and>
                  passes data ''aimY'' (JNum (Fin 0)) (rs_aimY p) \<and>
                  passes data ''exposure'' (JNum (Fin 0)) (rs_exposure p) \<and>
                  passes data ''t'' (JNum (Fin 0)) (rs_t p) \<and>
                  passes data ''targetX'' JNull (rs_targetX p) \<and>
                  passes data ''targetY'' JNull (rs_targetY p) \<and>
                  passes data ''targetZ'' JNull (rs_targetZ p)"
      if "roles_at g (other r) = Some dest" "dest \<in> opened s" for dest
      using that rd st by (simp add: handleState_def safeSend_def passes_numberOr)
    have b: "snd (step s (Message ws (Some data) now)) = []"
      if "roles_at g (other r) = None \<or>
            (\<exists>dest. roles_at g (other r) = Some dest \<and> dest \<notin> opened s)"
      using that rd st by (auto simp add: handleState_def)
    show ?thesis using g a b by blast
  qed
  have 3: "step s (Message ws (Some data) now) = (s, [])"
    if "clientMeta s ws = None \<or>
      (\<exists>m. clientMeta s ws = Some m \<and> (role m = None \<or> gameId m = None))"
    using that st relayDest_none[of s ws] by (auto simp add: handleState_def)
  show ?thesis using 1 2 3 by blast
qed

text \<open>
  The run \<open>two_players\<close>, then socket 0 (p1) sends \<open>{type: "state", snapX: 1.5}\<close>:
  socket 1 is sent the remote state with \<open>snapX = 1.5\<close>, zeros, and null targets.
\<close>

theorem C5_state_update_relay_amended_witness:
  "valid_run init_state two_players \<and>
   field msg_state ''type'' = Some (JStr ''state'') \<and>
   clientMeta (run init_state two_players) 0 =
     Some \<lparr>role = Some P1, isAlive = True, gameId = Some 1\<rparr> \<and>
   1 \<in> opened (run init_state two_players) \<and>
   step (run init_state two_players) (Message 0 (Some msg_state) 0) =
     (run init_state two_players,
      [Send 1 (RemoteState
         \<lparr>rs_from = P1, rs_snapX = JNum (Fin 1.5), rs_snapY = JNum (Fin 0), rs_crouch = JNum (Fin 0),
          rs_aimX = JNum (Fin 0), rs_aimY = JNum (Fin 0), rs_exposure = JNum (Fin 0),
          rs_targetX = JNull, rs_targetY = JNull, rs_targetZ = JNull, rs_t = JNum (Fin 0)\<rparr>)])"
  using C5_state_update_relay_amended [OF two_players_valid refl, of msg_state 0 0]
  by (simp add: two_players_valid two_players_run paired_def msg_state_def handler_defs)

text \<open>
  Claim C6, as stated, fails in two ways. First, \<open>start: data.start || null\<close> (line 227)
  replaces every falsy value by null: after \<open>two_players\<close>, socket 0 (p1, peer socket 1
  open) sends \<open>{type: "shot", start: 0}\<close>; \<open>start\<close> is present in the input with the
  value 0, and the message forwarded to socket 1 carries \<open>start: null\<close>. Second,
  \<open>JSON.stringify\<close> (line 46) writes an infinity as \<open>null\<close>: socket 0 sends
  \<open>{"type": "shot", "start": [1e400], "t": 1e400}\<close>; \<open>t\<close> is present and numeric, and
  the message forwarded carries \<open>start: [null]\<close>, which is not the sender's \<open>start\<close>,
  and \<open>t: null\<close>, which is neither the sender's \<open>t\<close> nor the server's clock.
\<close>

theorem C6_shot_relay_counterexample:
  "valid_run init_state two_players \<and>
   clientMeta (run init_state two_players) 0 =
     Some \<lparr>role = Some P1, isAlive = True, gameId = Some 1\<rparr> \<and>
   map_of (games (run init_state two_players)) 1 =
     Some \<lparr>game_id = 1, roles_p1 = Some 0, roles_p2 = Some 1, scores_p1 = 0, scores_p2 = 0\<rparr> \<and>
   1 \<in> opened (run init_state two_players) \<and>
   field msg_shot_zero ''type'' = Some (JStr ''shot'') \<and>
   field msg_shot_zero ''start'' = Some (JNum (Fin 0)) \<and>
   snd (step (run init_state two_players) (Message 0 (Some msg_shot_zero) 5000)) =
     [Send 1 (Shot \<lparr>sh_from = P1, sh_start = JNull, sh_velocity = JNull,
                     sh_radius = None, sh_color = None, sh_t = JNum (Fin 5)\<rparr>)] \<and>
   field msg_shot_big ''type'' = Some (JStr ''shot'') \<and>
   field msg_shot_big ''start'' = Some (JArr [JNum PlusInfinity]) \<and>
   field msg_shot_big ''t'' = Some (JNum PlusInfinity) \<and>
   snd (step (run init_state two_players) (Message 0 (Some msg_shot_big) 5000)) =
     [Send 1 (Shot \<lparr>sh_from = P1, sh_start = JArr [JNull], sh_velocity = JNull,
                     sh_radius = None, sh_color = None, sh_t = JNull\<rparr>)]"
  by (simp add: two_players_valid two_players_run paired_def msg_shot_zero_def
      msg_shot_big_def handler_defs)

text \<open>
  Claim C6, amended. For a \<open>shot\<close> message from a connection with a role and a game id,
  in a reachable state, when the other slot of its game holds an open socket: the state
  is unchanged and exactly one message is sent, to that socket. It carries the sender's
  \<open>start\<close> and \<open>velocity\<close> as JSON writes them when they are present and truthy (any
  value but null, false, 0 and the empty string), and null otherwise; JSON writes a value
  unchanged unless it holds a number beyond the range of doubles, which is written null.
  It carries \<open>radius\<close> only when the input has a numeric \<open>radius\<close> (null if that is
  beyond the range of doubles) and \<open>color\<close> only when the input has a truthy \<open>color\<close>.
  Its \<open>t\<close> is the sender's \<open>t\<close> when that is a finite number, null when it is a number
  beyond the range of doubles, and the server's clock at the relay, in seconds, otherwise.
\<close>

theorem C6_shot_relay_amended:
  assumes "valid_run init_state es" and "s = run init_state es"
    and "field data ''type'' = Some (JStr ''shot'')"
    and "clientMeta s ws = Some m" and "role m = Some r" and "gameId m = Some k"
  shows "\<exists>g. map_of (games s) k = Some g \<and>
    (\<forall>dest. roles_at g (other r) = Some dest \<and> dest \<in> opened s \<longrightarrow>
       (\<exists>p. step s (Message ws (Some data) now) = (s, [Send dest (Shot p)]) \<and>
            sh_from p = r \<and>
            passes_truthy data ''start'' (sh_start p) \<and>
            passes_truthy data ''velocity'' (sh_velocity p) \<and>
            carries_number data ''radius'' (sh_radius p) \<and>
            carries_truthy data ''color'' (sh_color p) \<and>
            passes data ''t'' (JNum (Fin (real_of_int now / 1000))) (sh_t p) \<and>
            (\<forall>v. field data ''start'' = Some v \<and> truthy v \<and> in_range v \<longrightarrow>
               sh_start p = v) \<and>
            (\<forall>v. field data ''velocity'' = Some v \<and> truthy v \<and> in_range v \<longrightarrow>
               sh_velocity p = v)))"
proof -
  obtain g where g: "map_of (games s) k = Some g"
    using reachable_game[OF assms(1,2,4,5,6)] by blast
  note rd = relayDest_eq[OF assms(4,5,6) g]
  have "\<exists>p. step s (Message ws (Some data) now) = (s, [Send dest (Shot p)]) \<and>
            sh_from p = r \<and>
            passes_truthy data ''start'' (sh_start p) \<and>
            passes_truthy data ''velocity'' (sh_velocity p) \<and>
            carries_number data ''radius'' (sh_radius p) \<and>
            carries_truthy data ''color'' (sh_color p) \<and>
            passes data ''t'' (JNum (Fin (real_of_int now / 1000))) (sh_t p) \<and>
            (\<forall>v. field data ''start'' = Some v \<and> truthy v \<and> in_range v \<longrightarrow>
               sh_start p = v) \<and>
            (\<forall>v. field data ''velocity'' = Some v \<and> truthy v \<and> in_range v \<longrightarrow>
               sh_velocity p = v)"
    if "roles_at g (other r) = Some dest" "dest \<in> opened s" for dest
    using that rd assms(3)
    by (auto simp add: onMessage_dispatch handleShot_def safeSend_def passes_numberOr
        passes_truthy_orNull carries_number_numberOrUndefined carries_truthy_orUndefined
        stringify_in_range)
  then show ?thesis using g by blast
qed

text \<open>
  After \<open>two_players\<close>, socket 0 sends a shot with an object, an array, a radius and a
  color, and no \<open>t\<close>, while the clock reads 5000 ms.
\<close>

theorem C6_shot_relay_amended_witness:
  "valid_run init_state two_players \<and>
   field msg_shot ''type'' = Some (JStr ''shot'') \<and>
   clientMeta (run init_state two_players) 0 =
     Some \<lparr>role = Some P1, isAlive = True, gameId = Some 1\<rparr> \<and>
   step (run init_state two_players) (Message 0 (Some msg_shot) 5000) =
     (run init_state two_players,
      [Send 1 (Shot \<lparr>sh_from = P1,
                     sh_start = JObj [(''x'', JNum (Fin 1)), (''y'', JNum (Fin 2)), (''z'', JNum (Fin 3))],
                     sh_velocity = JArr [JNum (Fin 0), JNum (Fin 0), JNum (Fin 4)],
                     sh_radius = Some (JNum (Fin 0.5)), sh_color = Some (JStr ''red''),
                     sh_t = JNum (Fin 5)\<rparr>)])"
proof -
  have t: "field msg_shot ''type'' = Some (JStr ''shot'')" by (simp add: msg_shot_def)
  have m: "clientMeta (run init_state two_players) 0 =
     Some \<lparr>role = Some P1, isAlive = True, gameId = Some 1\<rparr>"
    by (simp add: two_players_run paired_def)
  show ?thesis
    using C6_shot_relay_amended [OF two_players_valid refl t m, of P1 1 5000]
    by (simp add: two_players_valid two_players_run paired_def msg_shot_def handler_defs)
qed

text \<open>
  Claim C7. In a reachable state, a \<open>hello\<close> from an open connection whose record has
  both a role and a game id changes nothing in the state (no session, slot, score or
  connection record; the state after the step is the state before it); the game is in the
  store; and exactly one message is sent: to that connection, with the two scores of its
  game and \<open>pointsToWin\<close>.
\<close>

theorem C7_rejoin:
  assumes "valid_run init_state es" and "s = run init_state es"
    and "field data ''type'' = Some (JStr ''hello'')"
    and "clientMeta s ws = Some m" and "role m = Some r" and "gameId m = Some k"
    and "ws \<in> opened s"
  shows "\<exists>g. map_of (games s) k = Some g \<and>
    step s (Message ws (Some data) now) =
      (s, [Send ws (ScoreUpdate (scores_p1 g) (scores_p2 g) pointsToWin)])"
proof -
  obtain g where g: "map_of (games s) k = Some g"
    using reachable_game[OF assms(1,2,4,5,6)] by blast
  have "step s (Message ws (Some data) now) = (s, sendScoreUpdate s ws)"
    using assms(3-6) by (simp add: onMessage_dispatch handleHello_def assignClientToGame_def)
  moreover have "sendScoreUpdate s ws =
      [Send ws (ScoreUpdate (scores_p1 g) (scores_p2 g) pointsToWin)]"
    using assms(4,6,7) g by (simp add: sendScoreUpdate_def getGameForSocket_def safeSend_def)
  ultimately show ?thesis using g by simp
qed

text \<open>After \<open>two_players\<close>, socket 0 (p1) says \<open>hello\<close> again, asking for p2.\<close>

theorem C7_rejoin_witness:
  "valid_run init_state two_players \<and>
   field (msg_hello ''p2'') ''type'' = Some (JStr ''hello'') \<and>
   clientMeta (run init_state two_players) 0 =
     Some \<lparr>role = Some P1, isAlive = True, gameId = Some 1\<rparr> \<and>
   0 \<in> opened (run init_state two_players) \<and>
   step (run init_state two_players) (Message 0 (Some (msg_hello ''p2'')) 0) =
     (run init_state two_players, [Send 0 (ScoreUpdate 0 0 7)])"
proof -
  have t: "field (msg_hello ''p2'') ''type'' = Some (JStr ''hello'')" by (simp add: msg_hello_def)
  have m: "clientMeta (run init_state two_players) 0 =
     Some \<lparr>role = Some P1, isAlive = True, gameId = Some 1\<rparr>"
    by (simp add: two_players_run paired_def)
  have o: "0 \<in> opened (run init_state two_players)"
    by (simp add: two_players_run paired_def)
  show ?thesis
    using C7_rejoin [OF two_players_valid refl t m _ _ o, of P1 1 0]
    by (simp add: two_players_valid two_players_run paired_def msg_hello_def handler_defs)
qed

text \<open>
  Claim C8. In any state, an input that does not parse, has no \<open>type\<close>, has a \<open>type\<close>
  that is not a string, or has an unrecognized \<open>type\<close> leaves the whole state (records,
  games, sockets and their open state) as it is and causes no send, ping or terminate.
  The same holds for a \<open>state\<close>, \<open>shot\<close> or \<open>hit\<close> message from a connection without
  a role or without a game id, and for a \<open>reset-match\<close> message from a connection
  without a game id.
\<close>

theorem C8_ignored_messages:
  "(ignored_input raw \<longrightarrow> step s (Message ws raw now) = (s, [])) \<and>
   ((clientMeta s ws = None \<or>
     (\<exists>m. clientMeta s ws = Some m \<and> (role m = None \<or> gameId m = None))) \<and>
    (field data ''type'' = Some (JStr ''state'') \<or>
     field data ''type'' = Some (JStr ''shot'') \<or>
     field data ''type'' = Some (JStr ''hit'')) \<longrightarrow>
      step s (Message ws (Some data) now) = (s, [])) \<and>
   ((clientMeta s ws = None \<or> (\<exists>m. clientMeta s ws = Some m \<and> gameId m = None)) \<and>
    field data ''type'' = Some (JStr ''reset-match'') \<longrightarrow>
      step s (Message ws (Some data) now) = (s, []))"
proof -
  have 1: "step s (Message ws raw now) = (s, [])" if "ignored_input raw"
  proof (cases raw)
    case None
    then show ?thesis by (simp add: onMessage_def)
  next
    case (Some data)
    then show ?thesis using that
      by (auto simp add: onMessage_def recognized_def split: option.splits json.splits)
  qed
  have pre: "relayDest s ws = None \<and> handleHit s ws data = (s, [])"
    if "clientMeta s ws = None \<or>
     (\<exists>m. clientMeta s ws = Some m \<and> (role m = None \<or> gameId m = None))"
    using that relayDest_none[of s ws]
    by (auto simp add: handleHit_def split: option.splits)
  have 2: "step s (Message ws (Some data) now) = (s, [])"
    if "clientMeta s ws = None \<or>
     (\<exists>m. clientMeta s ws = Some m \<and> (role m = None \<or> gameId m = None))"
     and "field data ''type'' = Some (JStr ''state'') \<or>
     field data ''type'' = Some (JStr ''shot'') \<or>
     field data ''type'' = Some (JStr ''hit'')"
    using pre[OF that(1)] that(2)
    by (auto simp add: onMessage_dispatch handleState_def handleShot_def)
  have 3: "step s (Message ws (Some data) now) = (s, [])"
    if "clientMeta s ws = None \<or> (\<exists>m. clientMeta s ws = Some m \<and> gameId m = None)"
      and "field data ''type'' = Some (JStr ''reset-match'')"
    using that by (auto simp add: onMessage_dispatch handleResetMatch_def)
  show ?thesis using 1 2 3 by blast
qed

text \<open>
  In the state \<open>paired\<close>: an unknown type, unparseable text, a numeric type. After one
  more connection, from that unassigned socket 2: a \<open>hit\<close> and a \<open>reset-match\<close>.
\<close>

theorem C8_ignored_messages_witness:
  "ignored_input (Some (msg_plain ''dance'')) \<and>
   step paired (Message 0 (Some (msg_plain ''dance'')) 0) = (paired, []) \<and>
   ignored_input None \<and> step paired (Message 0 None 0) = (paired, []) \<and>
   ignored_input (Some (JObj [(''type'', JNum (Fin 3))])) \<and>
   step paired (Message 0 (Some (JObj [(''type'', JNum (Fin 3))])) 0) = (paired, []) \<and>
   clientMeta (onConnection paired) 2 = Some \<lparr>role = None, isAlive = True, gameId = None\<rparr> \<and>
   step (onConnection paired) (Message 2 (Some (msg_plain ''hit'')) 0) = (onConnection paired, []) \<and>
   step (onConnection paired) (Message 2 (Some (msg_plain ''reset-match'')) 0) =
     (onConnection paired, [])"
  using C8_ignored_messages [of "Some (msg_plain ''dance'')" paired 0 0 "msg_plain ''dance''"]
    C8_ignored_messages [of None paired 0 0 "msg_plain ''dance''"]
    C8_ignored_messages [of "Some (JObj [(''type'', JNum (Fin 3))])" paired 0 0 "msg_plain ''dance''"]
    C8_ignored_messages [of None "onConnection paired" 2 0 "msg_plain ''hit''"]
    C8_ignored_messages [of None "onConnection paired" 2 0 "msg_plain ''reset-match''"]
  by (simp add: msg_plain_def recognized_def paired_def onConnection_def)

text \<open>
  Claim C9. Let \<open>c\<close> be a connected socket in a reachable state; it has a record. One
  tick of the monitor is the sweep of the timer followed by the \<open>close\<close> event of every
  socket the sweep has terminated (\<open>tick_events\<close>), and it is a run the server can make.
  If the \<open>isAlive\<close> flag of \<open>c\<close> is false at the tick, the sweep calls \<open>terminate\<close> on
  \<open>c\<close> exactly once and does not ping it, \<open>c\<close> is no longer open, and the cleanup of
  \<open>c\<close>, the handler of its \<open>close\<close> event, runs exactly once in the tick: afterwards
  the record of \<open>c\<close> is removed and \<open>c\<close> is not a client, and in no run that follows does
  the cleanup of \<open>c\<close> run again or is \<open>c\<close> terminated again. If the flag is true, the
  sweep pings \<open>c\<close> exactly once and does not terminate it, the cleanup of \<open>c\<close> does not
  run, and after the tick \<open>c\<close> is still a client and its flag is false. A pong, the
  response to a ping, sets the flag to true. In any run at all the cleanup of \<open>c\<close> runs
  at most once. Consequently, after two ticks with no pong from \<open>c\<close> between them,
  whatever else happens between them, \<open>c\<close> is no longer a client; and with nothing
  assumed about when the \<open>close\<close> events arrive, after two sweeps with no pong from
  \<open>c\<close> between them \<open>c\<close> is not open, whatever happens between and after them.
\<close>

theorem C9_liveness:
  assumes "valid_run init_state es0" and "s = run init_state es0" and "c \<in> set (clients s)"
  shows "\<exists>m. clientMeta s c = Some m \<and>
     valid_run s (tick_events s) \<and>
     (\<not> isAlive m \<longrightarrow>
        count_list (snd (step s Heartbeat)) (Terminate c) = 1 \<and>
        Ping c \<notin> set (snd (step s Heartbeat)) \<and>
        c \<notin> opened (fst (step s Heartbeat)) \<and>
        valid_event (fst (step s Heartbeat)) (Close c) \<and>
        count_list (tick_events s) (Close c) = 1 \<and>
        clientMeta (tick s) c = None \<and>
        c \<notin> set (clients (tick s)) \<and>
        (\<forall>es. valid_run (tick s) es \<longrightarrow>
           count_list es (Close c) = 0 \<and> Terminate c \<notin> set (run_effects (tick s) es))) \<and>
     (isAlive m \<longrightarrow>
        count_list (snd (step s Heartbeat)) (Ping c) = 1 \<and>
        Terminate c \<notin> set (snd (step s Heartbeat)) \<and>
        clientMeta (fst (step s Heartbeat)) c = Some (m\<lparr>isAlive := False\<rparr>) \<and>
        count_list (tick_events s) (Close c) = 0 \<and>
        c \<in> set (clients (tick s)) \<and>
        clientMeta (tick s) c = Some (m\<lparr>isAlive := False\<rparr>)) \<and>
     clientMeta (fst (step s (Pong c))) c = Some (m\<lparr>isAlive := True\<rparr>) \<and>
     clientMeta (fst (step s (Close c))) c = None \<and>
     c \<notin> set (clients (fst (step s (Close c)))) \<and>
     (\<forall>es. valid_run s es \<longrightarrow> count_list es (Close c) \<le> 1) \<and>
     (\<forall>mid. valid_run (tick s) mid \<and> Pong c \<notin> set mid \<longrightarrow>
        c \<notin> set (clients (tick (run (tick s) mid)))) \<and>
     (\<forall>mid later. valid_run s (Heartbeat # mid @ Heartbeat # later) \<and> Pong c \<notin> set mid \<longrightarrow>
        c \<notin> opened (run s (Heartbeat # mid @ Heartbeat # later)))"
proof -
  have c: "consistent s" using assms(1,2) by (simp add: consistent_reachable)
  then have cok: "clients_ok s" by (simp add: consistent_def)
  have d: "distinct (clients s)" using cok by (simp add: clients_ok_def)
  have n: "c < nextConn s" using cok assms(3) unfolding clients_ok_def by blast
  obtain m where m: "clientMeta s c = Some m" using registered[OF c assms(3)] by blast
  have tv: "valid_run s (tick_events s)" using c by (rule tick_valid)
  have dead: "count_list (snd (step s Heartbeat)) (Terminate c) = 1 \<and>
        Ping c \<notin> set (snd (step s Heartbeat)) \<and>
        c \<notin> opened (fst (step s Heartbeat)) \<and>
        valid_event (fst (step s Heartbeat)) (Close c) \<and>
        count_list (tick_events s) (Close c) = 1 \<and>
        clientMeta (tick s) c = None \<and>
        c \<notin> set (clients (tick s)) \<and>
        (\<forall>es. valid_run (tick s) es \<longrightarrow>
           count_list es (Close c) = 0 \<and> Terminate c \<notin> set (run_effects (tick s) es))"
    if f: "\<not> isAlive m"
  proof -
    have sweep: "count_list (snd (step s Heartbeat)) (Terminate c) = 1 \<and>
        Ping c \<notin> set (snd (step s Heartbeat)) \<and>
        c \<notin> opened (fst (step s Heartbeat)) \<and>
        valid_event (fst (step s Heartbeat)) (Close c)"
      using hb_dead[OF d assms(3) m f] assms(3) by (simp add: heartbeat_def hb_fields)
    have once: "count_list (tick_events s) (Close c) = 1"
      using c assms(3) m f by (rule tick_dead(1))
    have rec: "clientMeta (tick s) c = None"
      using c assms(3) m f by (rule tick_dead(2))
    have g: "gone c (tick s)"
      using c assms(3) m f by (rule tick_dead(3))
    then have out: "c \<notin> set (clients (tick s))" by (simp add: gone_def)
    have never: "\<forall>es. valid_run (tick s) es \<longrightarrow>
           count_list es (Close c) = 0 \<and> Terminate c \<notin> set (run_effects (tick s) es)"
      using gone_run[OF g] gone_effects[OF g] by blast
    show ?thesis using sweep once rec out never by blast
  qed
  have alive: "count_list (snd (step s Heartbeat)) (Ping c) = 1 \<and>
        Terminate c \<notin> set (snd (step s Heartbeat)) \<and>
        clientMeta (fst (step s Heartbeat)) c = Some (m\<lparr>isAlive := False\<rparr>) \<and>
        count_list (tick_events s) (Close c) = 0 \<and>
        c \<in> set (clients (tick s)) \<and>
        clientMeta (tick s) c = Some (m\<lparr>isAlive := False\<rparr>)"
    if t: "isAlive m"
    using hb_alive[OF d assms(3) m t] tick_alive[OF c assms(3) m t]
    by (simp add: heartbeat_def)
  have pong: "clientMeta (fst (step s (Pong c))) c = Some (m\<lparr>isAlive := True\<rparr>)"
    using m by (simp add: onPong_def)
  have close: "clientMeta (fst (step s (Close c))) c = None \<and>
     c \<notin> set (clients (fst (step s (Close c))))"
    by (simp add: Let_def onClose_fields)
  have most: "\<forall>es. valid_run s es \<longrightarrow> count_list es (Close c) \<le> 1"
    using close_once[OF c] by blast
  have cleaned: "\<forall>mid. valid_run (tick s) mid \<and> Pong c \<notin> set mid \<longrightarrow>
        c \<notin> set (clients (tick (run (tick s) mid)))"
    using two_ticks_cleaned[OF c assms(3)] by blast
  have two: "\<forall>mid later. valid_run s (Heartbeat # mid @ Heartbeat # later) \<and> Pong c \<notin> set mid \<longrightarrow>
        c \<notin> opened (run s (Heartbeat # mid @ Heartbeat # later))"
    using two_ticks[OF c n] by blast
  show ?thesis
    apply (rule exI[of _ m])
    apply (intro conjI)
    subgoal by (rule m)
    subgoal by (rule tv)
    subgoal using dead by blast
    subgoal using alive by blast
    subgoal by (rule pong)
    subgoal using close by blast
    subgoal using close by blast
    subgoal by (rule most)
    subgoal by (rule cleaned)
    subgoal by (rule two)
    done
qed

text \<open>
  Socket 0 connects and never answers. The first tick pings it and leaves its flag false;
  the second terminates it and runs its cleanup, after which no client is left and a
  further sweep does nothing. A pong after the first tick would have set the flag again.
\<close>

theorem C9_liveness_witness:
  "valid_run init_state [Connection] \<and>
   0 \<in> set (clients (run init_state [Connection])) \<and>
   clientMeta (run init_state [Connection]) 0 =
     Some \<lparr>role = None, isAlive = True, gameId = None\<rparr> \<and>
   tick_events (run init_state [Connection]) = [Heartbeat] \<and>
   snd (step (run init_state [Connection]) Heartbeat) = [Ping 0] \<and>
   clients (tick (run init_state [Connection])) = [0] \<and>
   clientMeta (tick (run init_state [Connection])) 0 =
     Some \<lparr>role = None, isAlive = False, gameId = None\<rparr> \<and>
   valid_run (tick (run init_state [Connection])) [] \<and>
   Pong 0 \<notin> set [] \<and>
   clients (tick (run (tick (run init_state [Connection])) [])) = [] \<and>
   valid_run (run init_state [Connection]) [Heartbeat, Heartbeat] \<and>
   0 \<notin> opened (run (run init_state [Connection]) [Heartbeat, Heartbeat]) \<and>
   valid_run init_state [Connection, Heartbeat] \<and>
   0 \<in> set (clients (run init_state [Connection, Heartbeat])) \<and>
   clientMeta (run init_state [Connection, Heartbeat]) 0 =
     Some \<lparr>role = None, isAlive = False, gameId = None\<rparr> \<and>
   snd (step (run init_state [Connection, Heartbeat]) Heartbeat) = [Terminate 0] \<and>
   tick_events (run init_state [Connection, Heartbeat]) = [Heartbeat, Close 0] \<and>
   clientMeta (tick (run init_state [Connection, Heartbeat])) 0 = None \<and>
   clients (tick (run init_state [Connection, Heartbeat])) = [] \<and>
   valid_run (tick (run init_state [Connection, Heartbeat])) [Heartbeat] \<and>
   run_effects (tick (run init_state [Connection, Heartbeat])) [Heartbeat] = [] \<and>
   clientMeta (fst (step (run init_state [Connection, Heartbeat]) (Pong 0))) 0 =
     Some \<lparr>role = None, isAlive = True, gameId = None\<rparr>"
proof -
  have v1: "valid_run init_state [Connection]" by simp
  have v2: "valid_run init_state [Connection, Heartbeat]" by simp
  have m1: "0 \<in> set (clients (run init_state [Connection]))"
    by (simp add: init_state_def onConnection_def)
  have m2: "0 \<in> set (clients (run init_state [Connection, Heartbeat]))"
    by (simp add: init_state_def onConnection_def heartbeat_def)
  show ?thesis
    using C9_liveness [OF v1 refl m1] C9_liveness [OF v2 refl m2]
    by (simp add: init_state_def onConnection_def heartbeat_def onPong_def onClose_def
        tick_def tick_events_def)
qed

text \<open>
  Claim C10. In every state reached from the initial state by deliverable events, a
  connection record that has a role \<open>r\<close> and a game id \<open>k\<close> names a game that is in the
  store, and the slot \<open>r\<close> of that game holds exactly this connection. The \<open>close\<close>
  handler empties a slot only when the slot refers to the closing socket: a slot held by
  any other connection is still in the store, with the same occupant, after the handler.
\<close>

theorem C10_registry_store_consistent:
  assumes "valid_run init_state es" and "s = run init_state es"
  shows "(\<forall>c m r k. clientMeta s c = Some m \<and> role m = Some r \<and> gameId m = Some k \<longrightarrow>
            (\<exists>g. map_of (games s) k = Some g \<and> roles_at g r = Some c)) \<and>
         (\<forall>ws k g r c. map_of (games s) k = Some g \<and> roles_at g r = Some c \<and> c \<noteq> ws \<longrightarrow>
            (\<exists>g'. map_of (games (onClose s ws)) k = Some g' \<and> roles_at g' r = Some c))"
proof -
  have "consistent s" using assms by (simp add: consistent_reachable)
  then have mok: "meta_ok s" by (simp add: consistent_def)
  have 1: "\<forall>c m r k. clientMeta s c = Some m \<and> role m = Some r \<and> gameId m = Some k \<longrightarrow>
            (\<exists>g. map_of (games s) k = Some g \<and> roles_at g r = Some c)"
    using mok unfolding meta_ok_def by blast
  have 2: "\<exists>g'. map_of (games (onClose s ws)) k = Some g' \<and> roles_at g' r = Some c"
    if g: "map_of (games s) k = Some g" and h: "roles_at g r = Some c" and ne: "c \<noteq> ws"
    for ws k g r c
  proof (cases "clientMeta s ws")
    case None
    then show ?thesis using g h by (simp add: onClose_def)
  next
    case (Some m)
    show ?thesis
    proof (cases "gameId m")
      case None
      then show ?thesis using Some g h by (simp add: onClose_def)
    next
      case k0: (Some k0)
      show ?thesis
      proof (cases "map_of (games s) k0")
        case None
        then show ?thesis using Some k0 g h by (simp add: onClose_def)
      next
        case g0: (Some g0)
        show ?thesis
        proof (cases "role m")
          case None
          then show ?thesis using Some k0 g0 g h by (simp add: onClose_def)
        next
          case r0: (Some r0)
          let ?g = "if roles_at g0 r0 = Some ws then roles_set g0 r0 None else g0"
          show ?thesis
          proof (cases "k = k0")
            case False
            then show ?thesis using Some k0 g0 r0 g h
              by (simp add: onClose_def Let_def update_conv' delete_conv')
          next
            case True
            then have eq: "g0 = g" using g g0 by simp
            have keep: "roles_at ?g r = Some c" using h ne eq by auto
            have "\<not> (roles_p1 ?g = None \<and> roles_p2 ?g = None)"
              using keep by (cases r) auto
            then show ?thesis using Some k0 g0 r0 True keep
              by (auto simp add: onClose_def Let_def update_conv')
          qed
        qed
      qed
    qed
  qed
  show ?thesis using 1 2 by blast
qed

text \<open>
  The run \<open>two_players\<close>: socket 0 is recorded as p1 of game 1 and holds that slot; when
  socket 0 closes, socket 1 keeps the slot p2.
\<close>

theorem C10_registry_store_consistent_witness:
  "valid_run init_state two_players \<and>
   clientMeta (run init_state two_players) 0 =
     Some \<lparr>role = Some P1, isAlive = True, gameId = Some 1\<rparr> \<and>
   map_of (games (run init_state two_players)) 1 =
     Some \<lparr>game_id = 1, roles_p1 = Some 0, roles_p2 = Some 1, scores_p1 = 0, scores_p2 = 0\<rparr> \<and>
   map_of (games (onClose (run init_state two_players) 0)) 1 =
     Some \<lparr>game_id = 1, roles_p1 = None, roles_p2 = Some 1, scores_p1 = 0, scores_p2 = 0\<rparr>"
  using C10_registry_store_consistent [OF two_players_valid refl]
  by (simp add: two_players_valid two_players_run paired_def handler_defs)

end
